theory Spec2Isabelle
  imports Complex_Main "HOL-Library.Multiset"
begin

text \<open>
  A model of the jigsaw puzzle of \<open>puzzle.js\<close>, class \<open>OceanPuzzle\<close>, in its current form
  (the one that builds its piece outlines from shared edge tables): the edge generator,
  the piece catalog, the cluster registry with its piece-to-cluster index, the release
  handler with snap and merge, the frame update of a drag, the reset and the hit test.
  Loading of image and sound, drawing, shuffling and the pointer-down and pointer-move
  handlers are left out.
\<close>

section \<open>Numbers and points\<close>

text \<open>
  The program computes with JavaScript numbers. Every coordinate it stores (cell sizes,
  piece targets, edge points, cluster offsets, drag targets) is the result of
  \<open>Math.round\<close> or \<open>Math.floor\<close>, or a sum of such values, and is modelled as an
  \<open>int\<close>. Pointer coordinates and the options \<open>maxStepPerFrame\<close>, \<open>dragLerp\<close> and
  \<open>snapDistance\<close> are modelled as exact reals.
\<close>

definition js_round :: "real \<Rightarrow> int" where
  \<comment> \<open>\<open>Math.round\<close>: the nearest integer, halves rounded up.\<close>
  "js_round x = \<lfloor>x + 1 / 2\<rfloor>"

definition hypot :: "real \<Rightarrow> real \<Rightarrow> real" where
  \<comment> \<open>\<open>Math.hypot(dx, dy)\<close>\<close>
  "hypot dx dy = sqrt (dx * dx + dy * dy)"

type_synonym point = "int \<times> int"

datatype error = TypeError

section \<open>Board configuration\<close>

record config =
  rows :: nat
  cols :: nat
  cell_w :: int
  cell_h :: int
  bounds_x :: int
  bounds_y :: int
  maxStepPerFrame :: real
  dragLerp :: real
  snapDistance :: real
  lockOnSnap :: bool

section \<open>Shared edges (\<open>_buildSharedEdges\<close>)\<close>

definition N_seg :: nat where
  \<comment> \<open>\<open>const N = 12\<close>\<close>
  "N_seg = 12"

definition ampX :: "config \<Rightarrow> int" where
  "ampX cfg = max 4 \<lfloor>real_of_int (cell_h cfg) * 0.08\<rfloor>"

definition ampY :: "config \<Rightarrow> int" where
  "ampY cfg = max 4 \<lfloor>real_of_int (cell_w cfg) * 0.08\<rfloor>"

definition hPoint :: "config \<Rightarrow> nat \<Rightarrow> nat \<Rightarrow> nat \<Rightarrow> point" where
  \<comment> \<open>the point pushed at step \<open>i\<close> of the inner loop for the horizontal edge \<open>(r, c)\<close>\<close>
  "hPoint cfg r c i =
     (let isBorder = (r = 0 \<or> r = rows cfg);
          t = real i / real N_seg;
          x = js_round (t * real_of_int (cell_w cfg));
          y = (if isBorder then 0
               else js_round (sin (t * 2 * pi + real (r * 31 + c * 17)) * real_of_int (ampX cfg)))
      in (x, y))"

definition vPoint :: "config \<Rightarrow> nat \<Rightarrow> nat \<Rightarrow> nat \<Rightarrow> point" where
  \<comment> \<open>the point pushed at step \<open>i\<close> of the inner loop for the vertical edge \<open>(c, r)\<close>\<close>
  "vPoint cfg c r i =
     (let isBorder = (c = 0 \<or> c = cols cfg);
          t = real i / real N_seg;
          x = (if isBorder then 0
               else js_round (sin (t * 2 * pi + real (c * 37 + r * 19)) * real_of_int (ampY cfg)));
          y = js_round (t * real_of_int (cell_h cfg))
      in (x, y))"

definition hPoly :: "config \<Rightarrow> nat \<Rightarrow> nat \<Rightarrow> point list" where
  "hPoly cfg r c = map (hPoint cfg r c) [0..<N_seg + 1]"

definition vPoly :: "config \<Rightarrow> nat \<Rightarrow> nat \<Rightarrow> point list" where
  "vPoly cfg c r = map (vPoint cfg c r) [0..<N_seg + 1]"

definition hEdges :: "config \<Rightarrow> point list list list" where
  \<comment> \<open>\<open>hEdges[r][c]\<close> for \<open>r = 0..rows\<close>, \<open>c = 0..cols-1\<close>\<close>
  "hEdges cfg = map (\<lambda>r. map (\<lambda>c. hPoly cfg r c) [0..<cols cfg]) [0..<rows cfg + 1]"

definition vEdges :: "config \<Rightarrow> point list list list" where
  \<comment> \<open>\<open>vEdges[c][r]\<close> for \<open>c = 0..cols\<close>, \<open>r = 0..rows-1\<close>\<close>
  "vEdges cfg = map (\<lambda>c. map (\<lambda>r. vPoly cfg c r) [0..<rows cfg]) [0..<cols cfg + 1]"

definition buildSharedEdges :: "config \<Rightarrow> point list list list \<times> point list list list" where
  "buildSharedEdges cfg = (hEdges cfg, vEdges cfg)"

section \<open>Pieces (\<open>_createPieces\<close>)\<close>

record piece =
  p_id :: nat
  p_r :: nat
  p_c :: nat
  p_target :: point
  p_size :: "int \<times> int"

definition edgeAt :: "point list list list \<Rightarrow> nat \<Rightarrow> nat \<Rightarrow> point list option" where
  \<comment> \<open>\<open>tbl[i][j]\<close>; \<open>None\<close> where JavaScript yields \<open>undefined\<close> (and the following
      property access throws)\<close>
  "edgeAt tbl i j =
     (if i < length tbl \<and> j < length (tbl ! i) then Some (tbl ! i ! j) else None)"

text \<open>The four table reads of \<open>pathFn\<close> for the cell \<open>(r, c)\<close>.\<close>

definition topEdge :: "point list list list \<Rightarrow> nat \<Rightarrow> nat \<Rightarrow> point list option" where
  "topEdge hE r c = edgeAt hE r c"

definition rightEdge :: "point list list list \<Rightarrow> nat \<Rightarrow> nat \<Rightarrow> point list option" where
  "rightEdge vE r c = edgeAt vE (c + 1) r"

definition bottomEdge :: "point list list list \<Rightarrow> nat \<Rightarrow> nat \<Rightarrow> point list option" where
  "bottomEdge hE r c = edgeAt hE (r + 1) c"

definition leftEdge :: "point list list list \<Rightarrow> nat \<Rightarrow> nat \<Rightarrow> point list option" where
  "leftEdge vE r c = edgeAt vE c r"

text \<open>
  The points each of the four loops of \<open>pathFn\<close> hands to \<open>moveTo\<close>/\<open>lineTo\<close>, in
  drawing order and in the piece's local coordinates.
\<close>

definition topPts :: "point list \<Rightarrow> point list" where
  "topPts poly = poly"

definition rightPts :: "config \<Rightarrow> point list \<Rightarrow> point list" where
  "rightPts cfg poly = map (\<lambda>(x, y). (cell_w cfg + x, y)) (tl poly)"

definition bottomPts :: "config \<Rightarrow> point list \<Rightarrow> point list" where
  "bottomPts cfg poly = map (\<lambda>(x, y). (x, cell_h cfg + y)) (rev (butlast poly))"

definition leftPts :: "point list \<Rightarrow> point list" where
  "leftPts poly = rev (butlast poly)"

definition pathFn ::
  "config \<Rightarrow> point list list list \<Rightarrow> point list list list \<Rightarrow> nat \<Rightarrow> nat \<Rightarrow> error + point list" where
  "pathFn cfg hE vE r c =
     (case topEdge hE r c of
        None \<Rightarrow> Inl TypeError
      | Some ptop \<Rightarrow>
          (if ptop = [] then Inl TypeError
           else (case rightEdge vE r c of
                   None \<Rightarrow> Inl TypeError
                 | Some pright \<Rightarrow>
                     (case bottomEdge hE r c of
                        None \<Rightarrow> Inl TypeError
                      | Some pbottom \<Rightarrow>
                          (case leftEdge vE r c of
                             None \<Rightarrow> Inl TypeError
                           | Some pleft \<Rightarrow>
                               Inr (topPts ptop @ rightPts cfg pright
                                    @ bottomPts cfg pbottom @ leftPts pleft))))))"

definition mkPiece :: "config \<Rightarrow> nat \<times> nat \<times> nat \<Rightarrow> piece" where
  \<comment> \<open>the record pushed for the cell \<open>(r, c)\<close> when the counter stands at \<open>i\<close>\<close>
  "mkPiece cfg = (\<lambda>(i, r, c).
     \<lparr>p_id = i, p_r = r, p_c = c,
      p_target = (bounds_x cfg + int c * cell_w cfg, bounds_y cfg + int r * cell_h cfg),
      p_size = (cell_w cfg, cell_h cfg)\<rparr>)"

definition createPieces :: "config \<Rightarrow> piece list" where
  \<comment> \<open>row-major double loop with the running counter \<open>id++\<close>\<close>
  "createPieces cfg =
     map (mkPiece cfg) (enumerate 0 (List.product [0..<rows cfg] [0..<cols cfg]))"

definition translate :: "point \<Rightarrow> point \<Rightarrow> point" where
  \<comment> \<open>\<open>ctx.translate(wx, wy)\<close> applied to a path point\<close>
  "translate w = (\<lambda>(x, y). (fst w + x, snd w + y))"

section \<open>Clusters and the piece-to-cluster index\<close>

type_synonym gid = string

record group =
  g_id :: gid
  g_members :: "nat list"
  g_pos :: point

record drag_session =
  groupId :: gid
  offsetX :: real
  offsetY :: real
  d_target :: point

record state =
  pieces :: "piece list"
  groups :: "(gid \<times> group) list"
  pieceToGroup :: "nat \<Rightarrow> gid option"
  drag :: "drag_session option"

text \<open>
  \<open>groups\<close> is a JavaScript \<open>Map\<close>, which iterates in insertion order: an association
  list with the operations \<open>get\<close>, \<open>set\<close> and \<open>delete\<close>. \<open>members\<close> is a \<open>Set\<close>, also
  iterated in insertion order: a list to which \<open>add\<close> appends an element not yet present.

  A group object is held by reference. Every object the program stores in \<open>groups\<close> is
  stored under its own \<open>id\<close>, and an entry is never replaced while a release is handled,
  so an object with id \<open>k\<close> is the entry under \<open>k\<close> as long as that entry exists: a write to
  the object is \<open>write_group\<close>, which updates that entry. Once the entry is deleted the
  object lives on only in the local variable that holds it.
\<close>

definition map_get :: "'k \<Rightarrow> ('k \<times> 'v) list \<Rightarrow> 'v option" where
  "map_get k m = map_of m k"

definition map_set :: "'k \<Rightarrow> 'v \<Rightarrow> ('k \<times> 'v) list \<Rightarrow> ('k \<times> 'v) list" where
  "map_set k v m =
     (if k \<in> fst ` set m then map (\<lambda>(k', v'). if k' = k then (k', v) else (k', v')) m
      else m @ [(k, v)])"

definition map_delete :: "'k \<Rightarrow> ('k \<times> 'v) list \<Rightarrow> ('k \<times> 'v) list" where
  "map_delete k m = filter (\<lambda>(k', v'). k' \<noteq> k) m"

definition set_add :: "'a \<Rightarrow> 'a list \<Rightarrow> 'a list" where
  "set_add x xs = (if x \<in> set xs then xs else xs @ [x])"

definition write_group :: "group \<Rightarrow> (gid \<times> group) list \<Rightarrow> (gid \<times> group) list" where
  "write_group g m = map (\<lambda>(k, v). if k = g_id g then (k, g) else (k, v)) m"

definition createGroups :: "(nat \<Rightarrow> gid) \<Rightarrow> state \<Rightarrow> state" where
  \<comment> \<open>\<open>uuid i\<close> is the identifier drawn by the \<open>i\<close>-th call of \<open>crypto.randomUUID()\<close>\<close>
  "createGroups uuid s =
     (let step = (\<lambda>(i, p) (gs, idx).
                    (map_set (uuid i) \<lparr>g_id = uuid i, g_members = [p_id p], g_pos = (0, 0)\<rparr> gs,
                     idx(p_id p \<mapsto> uuid i)));
          r = fold step (enumerate 0 (pieces s)) ([], Map.empty)
      in s\<lparr>groups := fst r, pieceToGroup := snd r\<rparr>)"

definition reset :: "state \<Rightarrow> state" where
  "reset s = s\<lparr>groups := map (\<lambda>(k, g). (k, g\<lparr>g_pos := (0, 0)\<rparr>)) (groups s)\<rparr>"

definition pieceById :: "state \<Rightarrow> nat \<Rightarrow> piece option" where
  "pieceById s i = find (\<lambda>p. p_id p = i) (pieces s)"

definition getPiece :: "config \<Rightarrow> state \<Rightarrow> int \<Rightarrow> int \<Rightarrow> piece option" where
  "getPiece cfg s r c =
     (if r < 0 \<or> c < 0 \<or> r \<ge> int (rows cfg) \<or> c \<ge> int (cols cfg) then None
      else (let k = nat (r * int (cols cfg) + c)
            in if k < length (pieces s) then Some (pieces s ! k) else None))"


section \<open>Merging (\<open>_mergeGroups\<close>)\<close>

definition mergeGroups :: "state \<Rightarrow> group \<Rightarrow> group \<Rightarrow> state \<times> group \<times> group" where
  \<comment> \<open>\<open>gA\<close> and \<open>gB\<close> are two different objects; the result carries the new contents of
      both next to the new state\<close>
  "mergeGroups s gA gB =
     (let baseIsB = (length (g_members gB) \<ge> length (g_members gA));
          base = (if baseIsB then gB else gA);
          add = (if baseIsB then gA else gB);
          base' = base\<lparr>g_members := fold set_add (g_members add) (g_members base)\<rparr>;
          idx' = fold (\<lambda>pid m. m(pid \<mapsto> g_id base)) (g_members add) (pieceToGroup s);
          gs' = map_delete (g_id add) (write_group base' (groups s))
      in (s\<lparr>groups := gs', pieceToGroup := idx'\<rparr>,
          if baseIsB then (gA, base') else (base', gB)))"

section \<open>Release: snap and merge (\<open>_trySnapAndMerge\<close>, \<open>_handleUp\<close>)\<close>

definition neighbours :: "config \<Rightarrow> state \<Rightarrow> piece \<Rightarrow> piece list" where
  \<comment> \<open>\<open>[left, right, up, down].filter(Boolean)\<close>\<close>
  "neighbours cfg s p = List.map_filter (\<lambda>q. q)
     [getPiece cfg s (int (p_r p)) (int (p_c p) - 1),
      getPiece cfg s (int (p_r p)) (int (p_c p) + 1),
      getPiece cfg s (int (p_r p) - 1) (int (p_c p)),
      getPiece cfg s (int (p_r p) + 1) (int (p_c p))]"

definition ideal :: "piece \<Rightarrow> piece \<Rightarrow> group \<Rightarrow> point" where
  \<comment> \<open>\<open>(idealX, idealY)\<close> for the member \<open>p\<close> and its neighbour \<open>q\<close> in the group \<open>gQ\<close>\<close>
  "ideal p q gQ =
     ((fst (p_target q) + fst (g_pos gQ)) - fst (p_target p),
      (snd (p_target q) + snd (g_pos gQ)) - snd (p_target p))"

definition withinSnap :: "config \<Rightarrow> point \<Rightarrow> point \<Rightarrow> bool" where
  \<comment> \<open>\<open>Math.hypot(dx, dy) <= this.snapDistance\<close> with \<open>dx = idealX - movedG.pos.x\<close>\<close>
  "withinSnap cfg idl pos =
     (hypot (real_of_int (fst idl - fst pos)) (real_of_int (snd idl - snd pos))
        \<le> snapDistance cfg)"

fun scanNeighbours ::
  "config \<Rightarrow> state \<Rightarrow> group \<Rightarrow> piece \<Rightarrow> piece list \<Rightarrow> error + (state \<times> group \<times> bool)" where
  "scanNeighbours cfg s movedG p [] = Inr (s, movedG, False)"
| "scanNeighbours cfg s movedG p (q # qs) =
     (case pieceToGroup s (p_id q) of
        None \<Rightarrow> Inl TypeError
      | Some gidQ \<Rightarrow>
          (if gidQ = g_id movedG then scanNeighbours cfg s movedG p qs
           else (case map_get gidQ (groups s) of
                   None \<Rightarrow> Inl TypeError
                 | Some gQ \<Rightarrow>
                     (if withinSnap cfg (ideal p q gQ) (g_pos movedG) then
                        (let movedG1 = movedG\<lparr>g_pos :=
                                 (js_round (real_of_int (fst (ideal p q gQ))),
                                  js_round (real_of_int (snd (ideal p q gQ))))\<rparr>;
                             s1 = s\<lparr>groups := write_group movedG1 (groups s)\<rparr>;
                             r = mergeGroups s1 movedG1 gQ
                         in Inr (fst r, fst (snd r), True))
                      else scanNeighbours cfg s movedG p qs))))"

subsection \<open>Termination of the release loop\<close>

text \<open>
  A merge only moves piece ids between member sets, so the number of ids that
  \<open>movedG\<close> can still gain bounds the walk through its members.
\<close>

definition memberIds :: "(gid \<times> group) list \<Rightarrow> nat set" where
  "memberIds gs = (\<Union>kg\<in>set gs. set (g_members (snd kg)))"

lemma finite_memberIds [simp]: "finite (memberIds gs)"
  by (simp add: memberIds_def)

lemma set_fold_set_add: "set (fold set_add xs ms) = set ms \<union> set xs"
  by (induction xs arbitrary: ms) (auto simp: set_add_def)

lemma length_fold_set_add: "length (fold set_add xs ms) = length ms + card (set xs - set ms)"
proof (induction xs arbitrary: ms)
  case Nil
  then show ?case by simp
next
  case (Cons x xs)
  show ?case
  proof (cases "x \<in> set ms")
    case True
    then have "set (x # xs) - set ms = set xs - set ms" by auto
    with True Cons.IH [of ms] show ?thesis by (simp add: set_add_def)
  next
    case False
    have "set (x # xs) - set ms = insert x (set xs - set (ms @ [x]))" using False by auto
    moreover have "x \<notin> set xs - set (ms @ [x])" by simp
    ultimately have "card (set (x # xs) - set ms) = Suc (card (set xs - set (ms @ [x])))"
      by (metis card_insert_disjoint finite_Diff finite_set)
    with False Cons.IH [of "ms @ [x]"] show ?thesis by (simp add: set_add_def)
  qed
qed

lemma memberIds_write_group: "memberIds (write_group g gs) \<subseteq> memberIds gs \<union> set (g_members g)"
  by (auto simp: memberIds_def write_group_def split: if_splits)

lemma memberIds_map_delete: "memberIds (map_delete k gs) \<subseteq> memberIds gs"
  by (auto simp: memberIds_def map_delete_def)

lemma memberIds_map_get: "map_get k gs = Some g \<Longrightarrow> set (g_members g) \<subseteq> memberIds gs"
  by (force simp: memberIds_def map_get_def dest: map_of_SomeD)

lemma map_get_write_group_other:
  "k \<noteq> g_id g \<Longrightarrow> map_get k (write_group g gs) = map_get k gs"
  by (induction gs) (auto simp: map_get_def write_group_def)

lemma mergeGroups_measure:
  assumes "set (g_members gB) \<subseteq> memberIds (groups s)"
  shows "length (g_members (fst (snd (mergeGroups s gA gB))))
           + card (memberIds (groups (fst (mergeGroups s gA gB)))
                   - set (g_members (fst (snd (mergeGroups s gA gB)))))
         \<le> length (g_members gA) + card (memberIds (groups s) - set (g_members gA))"
proof (cases "length (g_members gB) \<ge> length (g_members gA)")
  case True
  let ?b = "gB\<lparr>g_members := fold set_add (g_members gA) (g_members gB)\<rparr>"
  have "memberIds (map_delete (g_id gA) (write_group ?b (groups s)))
          \<subseteq> memberIds (groups s) \<union> set (g_members gA)"
    using memberIds_map_delete [of "g_id gA" "write_group ?b (groups s)"]
      memberIds_write_group [of ?b "groups s"] assms
    by (auto simp: set_fold_set_add)
  then have "memberIds (map_delete (g_id gA) (write_group ?b (groups s))) - set (g_members gA)
          \<subseteq> memberIds (groups s) - set (g_members gA)" by auto
  then have "card (memberIds (map_delete (g_id gA) (write_group ?b (groups s))) - set (g_members gA))
          \<le> card (memberIds (groups s) - set (g_members gA))"
    by (intro card_mono) auto
  with True show ?thesis by (simp add: mergeGroups_def Let_def)
next
  case False
  let ?a = "gA\<lparr>g_members := fold set_add (g_members gB) (g_members gA)\<rparr>"
  let ?W = "memberIds (groups s) - set (g_members gA)"
  let ?D = "set (g_members gB) - set (g_members gA)"
  have "memberIds (map_delete (g_id gB) (write_group ?a (groups s)))
          \<subseteq> memberIds (groups s) \<union> set (g_members ?a)"
    using memberIds_map_delete [of "g_id gB" "write_group ?a (groups s)"]
      memberIds_write_group [of ?a "groups s"]
    by auto
  then have "memberIds (map_delete (g_id gB) (write_group ?a (groups s))) - set (g_members ?a)
          \<subseteq> ?W - ?D" by (auto simp: set_fold_set_add)
  then have "card (memberIds (map_delete (g_id gB) (write_group ?a (groups s))) - set (g_members ?a))
          \<le> card (?W - ?D)"
    by (intro card_mono) auto
  moreover have "?D \<subseteq> ?W" using assms by auto
  then have "card (?W - ?D) = card ?W - card ?D" "card ?D \<le> card ?W"
    by (auto simp: card_Diff_subset card_mono)
  ultimately show ?thesis using False
    by (simp add: mergeGroups_def Let_def length_fold_set_add)
qed

lemma scanNeighbours_measure:
  "scanNeighbours cfg s movedG p qs = Inr (s', movedG', m) \<Longrightarrow>
   length (g_members movedG') + card (memberIds (groups s') - set (g_members movedG'))
     \<le> length (g_members movedG) + card (memberIds (groups s) - set (g_members movedG))"
proof (induction qs)
  case Nil
  then show ?case by simp
next
  case (Cons q qs)
  show ?case
  proof (cases "pieceToGroup s (p_id q)")
    case None
    with Cons.prems show ?thesis by simp
  next
    case (Some gidQ)
    show ?thesis
    proof (cases "gidQ = g_id movedG")
      case True
      with Some Cons show ?thesis by simp
    next
      case ne: False
      show ?thesis
      proof (cases "map_get gidQ (groups s)")
        case None
        with Some ne Cons.prems show ?thesis by simp
      next
        case gq: (Some gQ)
        show ?thesis
        proof (cases "withinSnap cfg (ideal p q gQ) (g_pos movedG)")
          case False
          with Some ne gq Cons show ?thesis by simp
        next
          case True
          define movedG1 where "movedG1 = movedG\<lparr>g_pos :=
                                 (js_round (real_of_int (fst (ideal p q gQ))),
                                  js_round (real_of_int (snd (ideal p q gQ))))\<rparr>"
          define s1 where "s1 = s\<lparr>groups := write_group movedG1 (groups s)\<rparr>"
          have res: "s' = fst (mergeGroups s1 movedG1 gQ)" "movedG' = fst (snd (mergeGroups s1 movedG1 gQ))"
            using Cons.prems Some ne gq True by (simp_all add: Let_def movedG1_def s1_def)
          have sub1: "memberIds (groups s1) \<subseteq> memberIds (groups s) \<union> set (g_members movedG)"
            using memberIds_write_group [of movedG1 "groups s"] by (simp add: s1_def movedG1_def)
          have "map_get gidQ (groups s1) = Some gQ"
            using gq ne by (simp add: s1_def movedG1_def map_get_write_group_other)
          then have gQ_in: "set (g_members gQ) \<subseteq> memberIds (groups s1)"
            by (rule memberIds_map_get)
          have "memberIds (groups s1) - set (g_members movedG1)
                  \<subseteq> memberIds (groups s) - set (g_members movedG)"
            using sub1 by (auto simp: movedG1_def)
          then have "card (memberIds (groups s1) - set (g_members movedG1))
                  \<le> card (memberIds (groups s) - set (g_members movedG))"
            by (intro card_mono) auto
          moreover have "length (g_members movedG1) = length (g_members movedG)"
            by (simp add: movedG1_def)
          ultimately show ?thesis
            using mergeGroups_measure [OF gQ_in, of movedG1] unfolding res by linarith
        qed
      qed
    qed
  qed
qed


text \<open>
  The outer loop \<open>for (const pid of movedG.members)\<close>. A \<open>Set\<close> iterator is live: it
  also visits the elements added during the iteration, so the loop is a walk by index
  through the current member list of the object \<open>movedG\<close>.
\<close>

function snapLoop :: "config \<Rightarrow> state \<Rightarrow> group \<Rightarrow> nat \<Rightarrow> bool \<Rightarrow> error + state" where
  "snapLoop cfg s movedG i merged =
     (if i < length (g_members movedG) then
        (case pieceById s (g_members movedG ! i) of
           None \<Rightarrow> Inl TypeError
         | Some p \<Rightarrow>
             (case scanNeighbours cfg s movedG p (neighbours cfg s p) of
                Inl e \<Rightarrow> Inl e
              | Inr (s', movedG', m) \<Rightarrow>
                  (if (merged \<or> m) \<and> lockOnSnap cfg then Inr s'
                   else snapLoop cfg s' movedG' (i + 1) (merged \<or> m))))
      else Inr s)"
  by pat_completeness auto
termination
proof (relation "measure (\<lambda>(cfg, s, movedG, i, merged).
         length (g_members movedG) + card (memberIds (groups s) - set (g_members movedG)) - i)",
       goal_cases)
  case 1
  show ?case by simp
next
  case (2 cfg s movedG i merged p r s' x movedG' m)
  then have "scanNeighbours cfg s movedG p (neighbours cfg s p) = Inr (s', movedG', m)" by simp
  from scanNeighbours_measure [OF this] 2(1) show ?case by simp
qed

declare snapLoop.simps [simp del]

definition trySnapAndMerge :: "config \<Rightarrow> state \<Rightarrow> group \<Rightarrow> error + state" where
  "trySnapAndMerge cfg s movedG = snapLoop cfg s movedG 0 False"

definition handleUp :: "config \<Rightarrow> state \<Rightarrow> error + state" where
  "handleUp cfg s =
     (case drag s of
        None \<Rightarrow> Inr s
      | Some d \<Rightarrow>
          (case map_get (groupId d) (groups s) of
             None \<Rightarrow> Inl TypeError
           | Some movedG \<Rightarrow>
               (case trySnapAndMerge cfg s movedG of
                  Inl e \<Rightarrow> Inl e
                | Inr s' \<Rightarrow> Inr (s'\<lparr>drag := None\<rparr>))))"

section \<open>Frame update (\<open>_update\<close>)\<close>

definition cappedStep :: "config \<Rightarrow> real \<times> real \<Rightarrow> real \<times> real" where
  \<comment> \<open>\<open>if (len > maxStepPerFrame) { s = maxStepPerFrame/(len||1); dx*=s; dy*=s; }\<close>\<close>
  "cappedStep cfg = (\<lambda>(dx, dy).
     (let len = hypot dx dy
      in if len > maxStepPerFrame cfg then
           (let sc = maxStepPerFrame cfg / (if len = 0 then 1 else len)
            in (dx * sc, dy * sc))
         else (dx, dy)))"

definition easedStep :: "config \<Rightarrow> point \<Rightarrow> point \<Rightarrow> real \<times> real" where
  \<comment> \<open>\<open>(dx, dy)\<close> before rounding, for the drag target \<open>tgt\<close> and the offset \<open>pos\<close>\<close>
  "easedStep cfg tgt pos =
     cappedStep cfg (real_of_int (fst tgt - fst pos) * dragLerp cfg,
                     real_of_int (snd tgt - snd pos) * dragLerp cfg)"

definition update :: "config \<Rightarrow> state \<Rightarrow> error + state" where
  "update cfg s =
     (case drag s of
        None \<Rightarrow> Inr s
      | Some d \<Rightarrow>
          (case map_get (groupId d) (groups s) of
             None \<Rightarrow> Inl TypeError
           | Some g \<Rightarrow>
               (let step = easedStep cfg (d_target d) (g_pos g);
                    g' = g\<lparr>g_pos := (js_round (real_of_int (fst (g_pos g)) + fst step),
                                     js_round (real_of_int (snd (g_pos g)) + snd step))\<rparr>
                in Inr (s\<lparr>groups := write_group g' (groups s)\<rparr>))))"

section \<open>Hit test (\<open>_hitTest\<close>)\<close>

text \<open>
  \<open>ctx.isPointInPath\<close> belongs to the canvas, not to the program: it is the parameter
  \<open>inPath\<close>, given the path as built under \<open>translate(wx, wy)\<close> and the point handed to it.
\<close>

fun hitMembers ::
  "(point list \<Rightarrow> real \<times> real \<Rightarrow> bool) \<Rightarrow> config \<Rightarrow> state \<Rightarrow> group \<Rightarrow> real \<Rightarrow> real
     \<Rightarrow> nat list \<Rightarrow> error + piece option" where
  "hitMembers inPath cfg s g x y [] = Inr None"
| "hitMembers inPath cfg s g x y (i # ids) =
     (case pieceById s i of
        None \<Rightarrow> Inl TypeError
      | Some p \<Rightarrow>
          (let wx = fst (p_target p) + fst (g_pos g);
               wy = snd (p_target p) + snd (g_pos g)
           in if x < real_of_int wx \<or> y < real_of_int wy
                 \<or> x > real_of_int (wx + fst (p_size p)) \<or> y > real_of_int (wy + snd (p_size p))
              then hitMembers inPath cfg s g x y ids
              else (case pathFn cfg (hEdges cfg) (vEdges cfg) (p_r p) (p_c p) of
                      Inl e \<Rightarrow> Inl e
                    | Inr path \<Rightarrow>
                        (if inPath (map (translate (wx, wy)) path)
                              (x - real_of_int wx, y - real_of_int wy)
                         then Inr (Some p)
                         else hitMembers inPath cfg s g x y ids))))"

fun hitGroups ::
  "(point list \<Rightarrow> real \<times> real \<Rightarrow> bool) \<Rightarrow> config \<Rightarrow> state \<Rightarrow> real \<Rightarrow> real
     \<Rightarrow> group list \<Rightarrow> error + piece option" where
  "hitGroups inPath cfg s x y [] = Inr None"
| "hitGroups inPath cfg s x y (g # gs) =
     (case hitMembers inPath cfg s g x y (rev (g_members g)) of
        Inl e \<Rightarrow> Inl e
      | Inr (Some p) \<Rightarrow> Inr (Some p)
      | Inr None \<Rightarrow> hitGroups inPath cfg s x y gs)"

definition hitTest ::
  "(point list \<Rightarrow> real \<times> real \<Rightarrow> bool) \<Rightarrow> config \<Rightarrow> state \<Rightarrow> real \<Rightarrow> real
     \<Rightarrow> error + piece option" where
  "hitTest inPath cfg s x y = hitGroups inPath cfg s x y (rev (map snd (groups s)))"

section \<open>The partition invariant\<close>

definition allMembers :: "state \<Rightarrow> nat list" where
  \<comment> \<open>the member sets of all clusters, one after the other\<close>
  "allMembers s = concat (map (\<lambda>kg. g_members (snd kg)) (groups s))"

definition partition_inv :: "state \<Rightarrow> bool" where
  "partition_inv s \<longleftrightarrow>
     distinct (map fst (groups s))
     \<and> list_all (\<lambda>kg. g_id (snd kg) = fst kg) (groups s)
     \<and> distinct (allMembers s)
     \<and> set (allMembers s) = p_id ` set (pieces s)
     \<and> list_all (\<lambda>p. case pieceToGroup s (p_id p) of
                        None \<Rightarrow> False
                      | Some k \<Rightarrow> (case map_get k (groups s) of
                                    None \<Rightarrow> False
                                  | Some g \<Rightarrow> p_id p \<in> set (g_members g))) (pieces s)"

section \<open>Concrete boards\<close>

definition cfg23 :: config where
  "cfg23 = \<lparr>rows = 2, cols = 3, cell_w = 100, cell_h = 100, bounds_x = 24, bounds_y = 24,
            maxStepPerFrame = 10, dragLerp = 0.2, snapDistance = 14, lockOnSnap = True\<rparr>"

section \<open>Facts about the edge generator\<close>

lemma js_round_of_int [simp]: "js_round (real_of_int k) = k"
  by (simp add: js_round_def)

lemma js_round_0 [simp]: "js_round 0 = 0"
  by (simp add: js_round_def)

lemma length_hPoly [simp]: "length (hPoly cfg r c) = 13"
  by (simp add: hPoly_def N_seg_def)

lemma length_vPoly [simp]: "length (vPoly cfg c r) = 13"
  by (simp add: vPoly_def N_seg_def)

lemma edgeAt_hEdges: "r \<le> rows cfg \<Longrightarrow> c < cols cfg \<Longrightarrow> edgeAt (hEdges cfg) r c = Some (hPoly cfg r c)"
  by (simp add: edgeAt_def hEdges_def nth_append less_Suc_eq_le)

lemma edgeAt_vEdges: "c \<le> cols cfg \<Longrightarrow> r < rows cfg \<Longrightarrow> edgeAt (vEdges cfg) c r = Some (vPoly cfg c r)"
  by (simp add: edgeAt_def vEdges_def nth_append less_Suc_eq_le)

lemma hPoly_border:
  assumes "r = 0 \<or> r = rows cfg"
  shows "map snd (hPoly cfg r c) = replicate 13 0"
proof -
  have "map snd (hPoly cfg r c) = map (\<lambda>i. 0) [0..<13]"
    using assms unfolding hPoly_def N_seg_def map_map by (intro map_cong) (auto simp: hPoint_def Let_def)
  then show ?thesis by (simp only: map_replicate_const) simp
qed

lemma vPoly_border:
  assumes "c = 0 \<or> c = cols cfg"
  shows "map fst (vPoly cfg c r) = replicate 13 0"
proof -
  have "map fst (vPoly cfg c r) = map (\<lambda>i. 0) [0..<13]"
    using assms unfolding vPoly_def N_seg_def map_map by (intro map_cong) (auto simp: vPoint_def Let_def)
  then show ?thesis by (simp only: map_replicate_const) simp
qed

text \<open>
  Claim C8. For every boundary edge of the board (horizontal edges with \<open>r = 0\<close> or
  \<open>r = rows\<close>, vertical edges with \<open>c = 0\<close> or \<open>c = cols\<close>) the table holds the generated
  polyline and every point of it has lateral offset exactly zero.
\<close>

theorem perimeter_edges_straight:
  "((r = 0 \<or> r = rows cfg) \<and> c < cols cfg \<longrightarrow>
      edgeAt (hEdges cfg) r c = Some (hPoly cfg r c)
      \<and> map snd (hPoly cfg r c) = replicate (N_seg + 1) 0)
   \<and> ((c' = 0 \<or> c' = cols cfg) \<and> r' < rows cfg \<longrightarrow>
      edgeAt (vEdges cfg) c' r' = Some (vPoly cfg c' r')
      \<and> map fst (vPoly cfg c' r') = replicate (N_seg + 1) 0)"
  using hPoly_border [of r cfg c] vPoly_border [of c' cfg r']
  by (auto simp: edgeAt_hEdges edgeAt_vEdges N_seg_def)

theorem perimeter_edges_straight_witness:
  "((2 = (0::nat) \<or> 2 = rows cfg23) \<and> (1::nat) < cols cfg23)
   \<and> edgeAt (hEdges cfg23) 2 1 = Some (hPoly cfg23 2 1)
   \<and> map snd (hPoly cfg23 2 1) = replicate (N_seg + 1) 0
   \<and> ((3 = (0::nat) \<or> 3 = cols cfg23) \<and> (1::nat) < rows cfg23)
   \<and> edgeAt (vEdges cfg23) 3 1 = Some (vPoly cfg23 3 1)
   \<and> map fst (vPoly cfg23 3 1) = replicate (N_seg + 1) 0"
  using perimeter_edges_straight [of 2 cfg23 1 3 1] by (simp add: cfg23_def)

section \<open>Reset\<close>

text \<open>
  Claim C9. \<open>reset\<close> is idempotent; after it every cluster offset is zero; it changes
  neither the keys, the ids nor the member sets of the clusters, nor their number, nor the
  piece-to-cluster index: it never un-merges.
\<close>

theorem reset_idempotent:
  "reset (reset s) = reset s
   \<and> map (\<lambda>kg. g_pos (snd kg)) (groups (reset s)) = replicate (length (groups s)) (0, 0)
   \<and> map (\<lambda>kg. (fst kg, g_id (snd kg), g_members (snd kg))) (groups (reset s))
       = map (\<lambda>kg. (fst kg, g_id (snd kg), g_members (snd kg))) (groups s)
   \<and> length (groups (reset s)) = length (groups s)
   \<and> pieceToGroup (reset s) = pieceToGroup s
   \<and> pieces (reset s) = pieces s"
  by (auto simp: reset_def map_replicate_const [symmetric] case_prod_beta)


section \<open>Facts about the piece catalog\<close>

lemma length_createPieces [simp]: "length (createPieces cfg) = rows cfg * cols cfg"
  by (simp add: createPieces_def)

lemma createPieces_nth:
  assumes "k < rows cfg * cols cfg"
  shows "createPieces cfg ! k = mkPiece cfg (k, k div cols cfg, k mod cols cfg)"
proof -
  have c: "0 < cols cfg" using assms by (cases "cols cfg") auto
  have d: "k div cols cfg < rows cfg" using assms c by (simp add: less_mult_imp_div_less)
  have "List.product [0..<rows cfg] [0..<cols cfg] ! k = (k div cols cfg, k mod cols cfg)"
    using assms c d by (simp add: product_nth)
  then show ?thesis using assms by (simp add: createPieces_def nth_enumerate_eq)
qed

lemma createPieces_eq: "createPieces cfg = map (\<lambda>k. mkPiece cfg (k, k div cols cfg, k mod cols cfg)) [0..<rows cfg * cols cfg]"
  by (rule nth_equalityI) (simp_all add: createPieces_nth)

lemma map_p_id_createPieces: "map p_id (createPieces cfg) = [0..<rows cfg * cols cfg]"
  by (rule nth_equalityI) (simp_all add: createPieces_nth mkPiece_def)

lemma find_by_id:
  assumes "distinct (map p_id ps)" "k < length ps" 
  shows "find (\<lambda>p. p_id p = p_id (ps ! k)) ps = Some (ps ! k)"
  using assms
proof (induction ps arbitrary: k)
  case Nil
  then show ?case by simp
next
  case (Cons a ps)
  show ?case
  proof (cases k)
    case 0
    then show ?thesis by simp
  next
    case (Suc j)
    with Cons.prems have j: "j < length ps" by simp
    then have "p_id (ps ! j) \<in> p_id ` set ps" by simp
    with Cons.prems have "p_id a \<noteq> p_id (ps ! j)" by auto
    with Cons Suc j show ?thesis by simp
  qed
qed

lemma pieceById_createPieces:
  assumes "pieces s = createPieces cfg" "k < rows cfg * cols cfg"
  shows "pieceById s k = Some (mkPiece cfg (k, k div cols cfg, k mod cols cfg))"
proof -
  have "distinct (map p_id (createPieces cfg))" by (simp add: map_p_id_createPieces)
  from find_by_id [OF this, of k] assms show ?thesis
    by (simp add: pieceById_def createPieces_nth mkPiece_def)
qed

lemma pieceById_None:
  assumes "pieces s = createPieces cfg" "\<not> k < rows cfg * cols cfg"
  shows "pieceById s k = None"
proof -
  have "k \<notin> set (map p_id (createPieces cfg))" using assms by (simp add: map_p_id_createPieces)
  then show ?thesis using assms by (auto simp: pieceById_def find_None_iff)
qed

lemma getPiece_createPieces:
  assumes "pieces s = createPieces cfg" "r < rows cfg" "c < cols cfg"
  shows "getPiece cfg s (int r) (int c) = Some (mkPiece cfg (r * cols cfg + c, r, c))"
proof -
  have k: "r * cols cfg + c < rows cfg * cols cfg"
  proof -
    have "r * cols cfg + c < r * cols cfg + cols cfg" using assms by simp
    also have "\<dots> = Suc r * cols cfg" by simp
    also have "\<dots> \<le> rows cfg * cols cfg" using assms by (intro mult_le_mono1) simp
    finally show ?thesis .
  qed
  have "nat (int r * int (cols cfg) + int c) = r * cols cfg + c"
    by (simp add: nat_add_distrib nat_mult_distrib)
  then show ?thesis using assms k
    by (simp add: getPiece_def Let_def createPieces_nth)
qed


definition cfg21 :: config where
  "cfg21 = \<lparr>rows = 2, cols = 1, cell_w = 50, cell_h = 50, bounds_x = 0, bounds_y = 0,
            maxStepPerFrame = 10, dragLerp = 0.2, snapDistance = 14, lockOnSnap = True\<rparr>"

section \<open>Shared edges between neighbouring cells\<close>

lemma createPieces_at:
  assumes "r < rows cfg" "c < cols cfg"
  shows "createPieces cfg ! (r * cols cfg + c) = mkPiece cfg (r * cols cfg + c, r, c)"
proof -
  have "r * cols cfg + c < r * cols cfg + cols cfg" using assms by simp
  also have "\<dots> = Suc r * cols cfg" by simp
  also have "\<dots> \<le> rows cfg * cols cfg" using assms by (intro mult_le_mono1) simp
  finally have "r * cols cfg + c < rows cfg * cols cfg" .
  then show ?thesis using assms by (simp add: createPieces_nth)
qed

lemma rev_butlast_map: "rev (butlast (map f xs)) = map f (rev (butlast xs))"
  by (simp add: map_butlast [symmetric] rev_map)

lemma cfg23_simps [simp]:
  "rows cfg23 = 2" "cols cfg23 = 3" "cell_w cfg23 = 100" "cell_h cfg23 = 100"
  "bounds_x cfg23 = 24" "bounds_y cfg23 = 24" "maxStepPerFrame cfg23 = 10"
  "dragLerp cfg23 = 1 / 5" "snapDistance cfg23 = 14" "lockOnSnap cfg23 = True"
  by (simp_all add: cfg23_def)

lemma target_mkPiece:
  "p_target (mkPiece cfg (i, r, c))
     = (bounds_x cfg + int c * cell_w cfg, bounds_y cfg + int r * cell_h cfg)"
  by (simp add: mkPiece_def)

lemma bottom_top_world:
  "map (translate (p_target (mkPiece cfg (i, r, c)))) (bottomPts cfg poly)
   = rev (butlast (map (translate (p_target (mkPiece cfg (j, r + 1, c)))) (topPts poly)))"
proof -
  have pt: "translate (p_target (mkPiece cfg (i, r, c))) ((\<lambda>(x, y). (x, cell_h cfg + y)) q)
            = translate (p_target (mkPiece cfg (j, r + 1, c))) q" for q
    by (cases q) (simp add: translate_def target_mkPiece algebra_simps)
  have "map (translate (p_target (mkPiece cfg (i, r, c)))) (bottomPts cfg poly)
        = map (\<lambda>q. translate (p_target (mkPiece cfg (i, r, c))) ((\<lambda>(x, y). (x, cell_h cfg + y)) q))
              (rev (butlast poly))"
    by (simp only: bottomPts_def map_map o_def)
  also have "\<dots> = map (translate (p_target (mkPiece cfg (j, r + 1, c)))) (rev (butlast poly))"
    by (simp only: pt)
  also have "\<dots> = rev (butlast (map (translate (p_target (mkPiece cfg (j, r + 1, c)))) (topPts poly)))"
    by (simp only: rev_butlast_map topPts_def)
  finally show ?thesis .
qed

lemma right_left_world:
  "map (translate (p_target (mkPiece cfg (i, r, c)))) (map (\<lambda>(x, y). (cell_w cfg + x, y)) poly)
   = map (translate (p_target (mkPiece cfg (j, r, c + 1)))) poly"
proof -
  have pt: "translate (p_target (mkPiece cfg (i, r, c))) ((\<lambda>(x, y). (cell_w cfg + x, y)) q)
            = translate (p_target (mkPiece cfg (j, r, c + 1))) q" for q
    by (cases q) (simp add: translate_def target_mkPiece algebra_simps)
  show ?thesis by (simp only: map_map o_def pt)
qed

text \<open>
  Claim C2. For every interior edge the two adjacent cells read the same table entry:
  the bottom edge of \<open>(r, c)\<close> and the top edge of \<open>(r + 1, c)\<close> are both \<open>hEdges[r+1][c]\<close>,
  the right edge of \<open>(r, c)\<close> and the left edge of \<open>(r, c + 1)\<close> are both \<open>vEdges[c+1][r]\<close>;
  the entry is the polyline generated once for that edge, and the points the two pieces
  draw from it coincide in board coordinates.
\<close>

theorem edge_sharing:
  "(r + 1 < rows cfg \<and> c < cols cfg \<longrightarrow>
      bottomEdge (hEdges cfg) r c = topEdge (hEdges cfg) (r + 1) c
      \<and> topEdge (hEdges cfg) (r + 1) c = Some (hPoly cfg (r + 1) c)
      \<and> map (translate (p_target (createPieces cfg ! (r * cols cfg + c))))
            (bottomPts cfg (hPoly cfg (r + 1) c))
          = rev (butlast (map (translate (p_target (createPieces cfg ! ((r + 1) * cols cfg + c))))
                              (topPts (hPoly cfg (r + 1) c)))))
   \<and> (r' < rows cfg \<and> c' + 1 < cols cfg \<longrightarrow>
      rightEdge (vEdges cfg) r' c' = leftEdge (vEdges cfg) r' (c' + 1)
      \<and> leftEdge (vEdges cfg) r' (c' + 1) = Some (vPoly cfg (c' + 1) r')
      \<and> map (translate (p_target (createPieces cfg ! (r' * cols cfg + c'))))
            (rightPts cfg (vPoly cfg (c' + 1) r'))
          = tl (map (translate (p_target (createPieces cfg ! (r' * cols cfg + (c' + 1)))))
                    (vPoly cfg (c' + 1) r')))"
proof (intro conjI impI)
  assume a: "r + 1 < rows cfg \<and> c < cols cfg"
  show "bottomEdge (hEdges cfg) r c = topEdge (hEdges cfg) (r + 1) c"
    by (simp add: bottomEdge_def topEdge_def)
  show "topEdge (hEdges cfg) (r + 1) c = Some (hPoly cfg (r + 1) c)"
    using a by (simp add: topEdge_def edgeAt_hEdges)
  have "createPieces cfg ! (r * cols cfg + c) = mkPiece cfg (r * cols cfg + c, r, c)"
    using a by (intro createPieces_at) simp_all
  moreover have "createPieces cfg ! ((r + 1) * cols cfg + c) = mkPiece cfg ((r + 1) * cols cfg + c, r + 1, c)"
    using a by (intro createPieces_at) simp_all
  ultimately show "map (translate (p_target (createPieces cfg ! (r * cols cfg + c))))
            (bottomPts cfg (hPoly cfg (r + 1) c))
          = rev (butlast (map (translate (p_target (createPieces cfg ! ((r + 1) * cols cfg + c))))
                              (topPts (hPoly cfg (r + 1) c))))"
    using bottom_top_world [of cfg "r * cols cfg + c" r c "hPoly cfg (r + 1) c" "(r + 1) * cols cfg + c"]
    by (simp only:)
next
  assume a: "r' < rows cfg \<and> c' + 1 < cols cfg"
  show "rightEdge (vEdges cfg) r' c' = leftEdge (vEdges cfg) r' (c' + 1)"
    by (simp add: rightEdge_def leftEdge_def)
  show "leftEdge (vEdges cfg) r' (c' + 1) = Some (vPoly cfg (c' + 1) r')"
    using a by (simp add: leftEdge_def edgeAt_vEdges)
  have "createPieces cfg ! (r' * cols cfg + c') = mkPiece cfg (r' * cols cfg + c', r', c')"
    using a by (intro createPieces_at) simp_all
  moreover have "createPieces cfg ! (r' * cols cfg + (c' + 1)) = mkPiece cfg (r' * cols cfg + (c' + 1), r', c' + 1)"
    using a by (intro createPieces_at) simp_all
  ultimately show "map (translate (p_target (createPieces cfg ! (r' * cols cfg + c'))))
            (rightPts cfg (vPoly cfg (c' + 1) r'))
          = tl (map (translate (p_target (createPieces cfg ! (r' * cols cfg + (c' + 1)))))
                    (vPoly cfg (c' + 1) r'))"
    using right_left_world [of cfg "r' * cols cfg + c'" r' c' "vPoly cfg (c' + 1) r'" "r' * cols cfg + (c' + 1)"]
    by (simp only: rightPts_def map_tl)
qed

theorem edge_sharing_witness:
  "((0::nat) + 1 < rows cfg23 \<and> (2::nat) < cols cfg23)
   \<and> bottomEdge (hEdges cfg23) 0 2 = topEdge (hEdges cfg23) (0 + 1) 2
   \<and> topEdge (hEdges cfg23) (0 + 1) 2 = Some (hPoly cfg23 (0 + 1) 2)
   \<and> map (translate (p_target (createPieces cfg23 ! (0 * cols cfg23 + 2))))
          (bottomPts cfg23 (hPoly cfg23 (0 + 1) 2))
       = rev (butlast (map (translate (p_target (createPieces cfg23 ! ((0 + 1) * cols cfg23 + 2))))
                           (topPts (hPoly cfg23 (0 + 1) 2))))
   \<and> ((1::nat) < rows cfg23 \<and> (1::nat) + 1 < cols cfg23)
   \<and> rightEdge (vEdges cfg23) 1 1 = leftEdge (vEdges cfg23) 1 (1 + 1)
   \<and> leftEdge (vEdges cfg23) 1 (1 + 1) = Some (vPoly cfg23 (1 + 1) 1)
   \<and> map (translate (p_target (createPieces cfg23 ! (1 * cols cfg23 + 1))))
          (rightPts cfg23 (vPoly cfg23 (1 + 1) 1))
       = tl (map (translate (p_target (createPieces cfg23 ! (1 * cols cfg23 + (1 + 1)))))
                 (vPoly cfg23 (1 + 1) 1))"
proof -
  have h: "(0::nat) + 1 < rows cfg23 \<and> (2::nat) < cols cfg23"
    "(1::nat) < rows cfg23 \<and> (1::nat) + 1 < cols cfg23"
    by simp_all
  with edge_sharing [of 0 cfg23 2 1 1] show ?thesis by blast
qed


section \<open>The value of the wave at the ends of an interior edge\<close>

lemma sum_upto7: "(\<Sum>m<7. f m) = f 0 + f 1 + f 2 + f 3 + f 4 + f 5 + (f 6 :: real)" for f :: "nat \<Rightarrow> real"
  by (simp add: eval_nat_numeral)

lemma sin_coeffs: "sin_coeff 0 = 0" "sin_coeff 1 = 1" "sin_coeff 2 = 0" "sin_coeff 3 = - (1/6)"
  "sin_coeff 4 = 0" "sin_coeff 5 = 1/120" "sin_coeff 6 = 0"
  by (simp_all add: sin_coeff_def fact_numeral)

lemma sin_approx7: "\<bar>sin x - (x - x^3/6 + x^5/120)\<bar> \<le> \<bar>x\<bar>^7 / 5040" for x :: real
proof -
  have "\<bar>sin x - (\<Sum>m<7. sin_coeff m * x ^ m)\<bar> \<le> inverse (fact 7) * \<bar>x\<bar> ^ 7"
    by (rule Maclaurin_sin_bound)
  moreover have "(\<Sum>m<7. sin_coeff m * x ^ m) = x - x^3/6 + x^5/120"
    by (simp only: sum_upto7 sin_coeffs) simp
  moreover have "inverse (fact 7) * \<bar>x\<bar> ^ 7 = \<bar>x\<bar>^7 / 5040"
    by (simp add: fact_numeral)
  ultimately show ?thesis by simp
qed

lemma sin_approx7_lower: "x - x^3/6 + x^5/120 - \<bar>x\<bar>^7 / 5040 \<le> sin x" for x :: real
  using sin_approx7 [of x] by linarith

lemma sin_approx7_upper: "sin x \<le> x - x^3/6 + x^5/120 + \<bar>x\<bar>^7 / 5040" for x :: real
  using sin_approx7 [of x] by linarith

lemma pi_lower: "3141/1000 < pi"
proof -
  have "sin (5235/10000 :: real) < 1/2"
    using sin_approx7_upper [of "5235/10000"] by (simp add: power_divide)
  then have "sin (5235/10000 :: real) < sin (pi/6)" by (simp add: sin_30)
  then have "5235/10000 < pi/6"
    using pi_ge_two by (subst (asm) sin_mono_less_eq) simp_all
  then show ?thesis by simp
qed

lemma pi_upper: "pi < 3144/1000"
proof -
  have "1/2 < sin (524/1000 :: real)"
    using sin_approx7_lower [of "524/1000"] by (simp add: power_divide)
  then have "sin (pi/6) < sin (524/1000 :: real)" by (simp add: sin_30)
  then have "pi/6 < 524/1000"
    using pi_ge_two by (subst (asm) sin_mono_less_eq) simp_all
  then show ?thesis by simp
qed

lemma sin_31_bounds: "- (45/100) < sin (31::real)" "sin (31::real) < - (39/100)"
proof -
  define d where "d = 10 * pi - 31"
  have d: "41/100 < d" "d < 44/100" using pi_lower pi_upper by (simp_all add: d_def)
  have "sin (31::real) = sin (- d + (2 * pi) * of_int 5)" by (simp add: d_def)
  also have "\<dots> = - sin d" unfolding sin_add sin_int_2pin cos_int_2pin by simp
  finally have eq: "sin (31::real) = - sin d" .
  have "sin (41/100::real) < sin d"
    using d pi_ge_two by (subst sin_mono_less_eq) simp_all
  moreover have "39/100 < sin (41/100::real)"
    using sin_approx7_lower [of "41/100"] by (simp add: power_divide)
  moreover have "sin d \<le> d" using d by (intro sin_x_le_x) simp
  ultimately show "- (45/100) < sin (31::real)" "sin (31::real) < - (39/100)"
    using d eq by simp_all
qed

lemma ampX_ge_4: "4 \<le> ampX cfg"
  by (simp add: ampX_def)

lemma hPoint_1_0_first:
  "hPoint cfg (Suc 0) 0 0
     = (0, if rows cfg = Suc 0 then 0 else js_round (sin 31 * real_of_int (ampX cfg)))"
  by (auto simp: hPoint_def N_seg_def Let_def)

lemma hPoint_1_0_last:
  "hPoint cfg (Suc 0) 0 12
     = (cell_w cfg, if rows cfg = Suc 0 then 0 else js_round (sin 31 * real_of_int (ampX cfg)))"
proof -
  have "sin (2 * pi + 31) = sin (31::real)" using sin_periodic [of 31] by (simp only: add.commute)
  then show ?thesis by (auto simp: hPoint_def N_seg_def Let_def)
qed

lemma js_round_wave_neg: "js_round (sin 31 * real_of_int (ampX cfg)) < 0"
proof -
  have "4 \<le> real_of_int (ampX cfg)" using ampX_ge_4 [of cfg] by linarith
  then have "sin 31 * real_of_int (ampX cfg) \<le> sin 31 * 4"
    using sin_31_bounds(2) by (intro mult_left_mono_neg) simp_all
  then have "sin 31 * real_of_int (ampX cfg) + 1 / 2 < 0" using sin_31_bounds(2) by linarith
  then show ?thesis unfolding js_round_def by (simp add: floor_less_iff)
qed

lemma hd_hPoly: "hd (hPoly cfg r c) = hPoint cfg r c 0"
  by (simp add: hPoly_def N_seg_def upt_conv_Cons)

lemma last_hPoly: "last (hPoly cfg r c) = hPoint cfg r c 12"
  by (simp add: hPoly_def N_seg_def last_map)

lemma interior_edge_not_pinned:
  assumes "1 < rows cfg"
  shows "snd (hd (hPoly cfg (Suc 0) 0)) < 0" "snd (last (hPoly cfg (Suc 0) 0)) < 0"
  using assms js_round_wave_neg [of cfg]
  by (simp_all add: hd_hPoly last_hPoly hPoint_1_0_first hPoint_1_0_last)

lemma cfg21_simps [simp]:
  "rows cfg21 = 2" "cols cfg21 = 1" "cell_w cfg21 = 50" "cell_h cfg21 = 50"
  "bounds_x cfg21 = 0" "bounds_y cfg21 = 0" "maxStepPerFrame cfg21 = 10"
  "dragLerp cfg21 = 1 / 5" "snapDistance cfg21 = 14" "lockOnSnap cfg21 = True"
  by (simp_all add: cfg21_def)

lemma ampX_cfg21: "ampX cfg21 = 4"
  by (simp add: ampX_def)

lemma wave_cfg21: "js_round (sin 31 * real_of_int (ampX cfg21)) = - 2"
proof -
  have "- 2 \<le> sin 31 * 4 + 1 / (2::real)" "sin 31 * 4 + 1 / (2::real) < - 1"
    using sin_31_bounds by simp_all
  then have "\<lfloor>sin 31 * 4 + 1 / (2::real)\<rfloor> = - 2" by linarith
  then show ?thesis by (simp add: js_round_def ampX_cfg21)
qed

text \<open>
  What does hold for every edge: the coordinate along the edge runs monotonically from
  0 to the cell size.
\<close>

lemma js_round_mono: "x \<le> y \<Longrightarrow> js_round x \<le> js_round y"
  by (simp add: js_round_def floor_mono)

lemma sorted_map_upt:
  assumes "\<And>i j. i \<le> j \<Longrightarrow> f i \<le> (f j :: int)"
  shows "sorted (map f [0..<n])"
  by (simp add: sorted_iff_nth_mono assms)

lemma hPoly_primary_axis:
  assumes "0 \<le> cell_w cfg"
  shows "sorted (map fst (hPoly cfg r c))"
    and "fst (hd (hPoly cfg r c)) = 0"
    and "fst (last (hPoly cfg r c)) = cell_w cfg"
proof -
  have "map fst (hPoly cfg r c)
          = map (\<lambda>i. js_round (real i / real N_seg * real_of_int (cell_w cfg))) [0..<N_seg + 1]"
    by (simp add: hPoly_def hPoint_def Let_def comp_def)
  moreover have "sorted (map (\<lambda>i. js_round (real i / real N_seg * real_of_int (cell_w cfg))) [0..<N_seg + 1])"
  proof (rule sorted_map_upt)
    fix i j :: nat assume "i \<le> j"
    then have "real i / real N_seg \<le> real j / real N_seg" by (simp add: divide_right_mono)
    then have "real i / real N_seg * real_of_int (cell_w cfg) \<le> real j / real N_seg * real_of_int (cell_w cfg)"
      using assms by (intro mult_right_mono) simp_all
    then show "js_round (real i / real N_seg * real_of_int (cell_w cfg))
                 \<le> js_round (real j / real N_seg * real_of_int (cell_w cfg))"
      by (rule js_round_mono)
  qed
  ultimately show "sorted (map fst (hPoly cfg r c))" by simp
  show "fst (hd (hPoly cfg r c)) = 0" by (simp add: hd_hPoly hPoint_def Let_def)
  show "fst (last (hPoly cfg r c)) = cell_w cfg"
    by (simp add: last_hPoly hPoint_def Let_def N_seg_def)
qed

lemma vPoly_primary_axis:
  assumes "0 \<le> cell_h cfg"
  shows "sorted (map snd (vPoly cfg c r))"
    and "snd (hd (vPoly cfg c r)) = 0"
    and "snd (last (vPoly cfg c r)) = cell_h cfg"
proof -
  have "map snd (vPoly cfg c r)
          = map (\<lambda>i. js_round (real i / real N_seg * real_of_int (cell_h cfg))) [0..<N_seg + 1]"
    by (simp add: vPoly_def vPoint_def Let_def comp_def)
  moreover have "sorted (map (\<lambda>i. js_round (real i / real N_seg * real_of_int (cell_h cfg))) [0..<N_seg + 1])"
  proof (rule sorted_map_upt)
    fix i j :: nat assume "i \<le> j"
    then have "real i / real N_seg \<le> real j / real N_seg" by (simp add: divide_right_mono)
    then have "real i / real N_seg * real_of_int (cell_h cfg) \<le> real j / real N_seg * real_of_int (cell_h cfg)"
      using assms by (intro mult_right_mono) simp_all
    then show "js_round (real i / real N_seg * real_of_int (cell_h cfg))
                 \<le> js_round (real j / real N_seg * real_of_int (cell_h cfg))"
      by (rule js_round_mono)
  qed
  ultimately show "sorted (map snd (vPoly cfg c r))" by simp
  show "snd (hd (vPoly cfg c r)) = 0"
    by (simp add: vPoly_def N_seg_def upt_conv_Cons vPoint_def Let_def)
  show "snd (last (vPoly cfg c r)) = cell_h cfg"
    by (simp add: vPoly_def N_seg_def last_map vPoint_def Let_def)
qed

lemma hPoly_cfg21_ends:
  "hd (hPoly cfg21 1 0) = (0, - 2)" "last (hPoly cfg21 1 0) = (50, - 2)"
  by (simp_all add: hd_hPoly last_hPoly hPoint_1_0_first hPoint_1_0_last wave_cfg21)

text \<open>
  Claim C6, evaluated on the board with two rows and one column of 50 by 50 cells: the
  polyline of the interior edge \<open>hEdges[1][0]\<close> is stored in the table, its first point
  is \<open>(0, -2)\<close> and its last point is \<open>(50, -2)\<close>. Both ends lie two units off the cell
  corners \<open>(0, 0)\<close> and \<open>(50, 0)\<close>.
\<close>

theorem interior_edge_ends_cfg21:
  "edgeAt (hEdges cfg21) 1 0 = Some (hPoly cfg21 1 0)
   \<and> hd (hPoly cfg21 1 0) = (0, - 2)
   \<and> last (hPoly cfg21 1 0) = (50, - 2)"
  using hPoly_cfg21_ends by (simp add: edgeAt_hEdges)


section \<open>Frame update\<close>

definition sDrag :: state where
  "sDrag = \<lparr>pieces = createPieces cfg21,
            groups = [(''a'', \<lparr>g_id = ''a'', g_members = [0], g_pos = (0, 0)\<rparr>),
                      (''b'', \<lparr>g_id = ''b'', g_members = [1], g_pos = (0, 0)\<rparr>)],
            pieceToGroup = [0 \<mapsto> ''a'', 1 \<mapsto> ''b''],
            drag = Some \<lparr>groupId = ''b'', offsetX = 0, offsetY = 0, d_target = (250, 600)\<rparr>\<rparr>"

lemma hypot_nonneg [simp]: "0 \<le> hypot dx dy"
  by (simp add: hypot_def)

lemma hypot_eqI: "0 \<le> l \<Longrightarrow> dx * dx + dy * dy = l * l \<Longrightarrow> hypot dx dy = l"
  by (simp add: hypot_def real_sqrt_unique power2_eq_square)

lemma hypot_scale: "hypot (dx * k) (dy * k) = \<bar>k\<bar> * hypot dx dy"
proof -
  have "dx * k * (dx * k) + dy * k * (dy * k) = k\<^sup>2 * (dx * dx + dy * dy)"
    by (simp add: power2_eq_square algebra_simps)
  then show ?thesis by (simp add: hypot_def real_sqrt_mult)
qed

lemma hypot_le_iff: "hypot dx dy \<le> d \<longleftrightarrow> 0 \<le> d \<and> dx * dx + dy * dy \<le> d * d"
proof (cases "0 \<le> d")
  case True
  then have "sqrt (dx * dx + dy * dy) \<le> d \<longleftrightarrow> dx * dx + dy * dy \<le> d\<^sup>2"
    by (metis real_sqrt_le_iff real_sqrt_abs abs_of_nonneg)
  with True show ?thesis by (simp add: hypot_def power2_eq_square)
next
  case False
  then have "\<not> hypot dx dy \<le> d" using hypot_nonneg [of dx dy] by linarith
  with False show ?thesis by simp
qed

lemma js_round_add_int: "js_round (real_of_int k + x) = k + js_round x"
  by (simp add: js_round_def add.assoc)

lemma js_round_close: "\<bar>real_of_int (js_round x) - x\<bar> \<le> 1 / 2"
  unfolding js_round_def by linarith

lemma cappedStep_capped:
  assumes "0 < maxStepPerFrame cfg" "maxStepPerFrame cfg < hypot dx dy"
    and "k = maxStepPerFrame cfg / hypot dx dy"
  shows "cappedStep cfg (dx, dy) = (dx * k, dy * k)"
    and "0 < k"
    and "hypot (dx * k) (dy * k) = maxStepPerFrame cfg"
proof -
  have pos: "0 < hypot dx dy" using assms by linarith
  show "cappedStep cfg (dx, dy) = (dx * k, dy * k)"
    using assms pos by (simp add: cappedStep_def Let_def)
  show kpos: "0 < k" using assms pos by simp
  have "hypot (dx * k) (dy * k) = k * hypot dx dy"
    using kpos by (simp add: hypot_scale)
  also have "\<dots> = maxStepPerFrame cfg" using pos assms(3) by simp
  finally show "hypot (dx * k) (dy * k) = maxStepPerFrame cfg" .
qed

text \<open>
  Claim C7, as amended. When the eased step is longer than \<open>maxStepPerFrame\<close>, the step
  the frame aims at is the eased step scaled to length exactly \<open>maxStepPerFrame\<close>, its
  direction kept; the cluster moves by that step with each coordinate rounded to the
  nearest integer, so each coordinate of the move is within one half of the capped step.
\<close>

theorem update_capped_step:
  assumes "0 < maxStepPerFrame cfg"
    and "drag s = Some d"
    and "map_get (groupId d) (groups s) = Some g"
    and "dx = real_of_int (fst (d_target d) - fst (g_pos g)) * dragLerp cfg"
    and "dy = real_of_int (snd (d_target d) - snd (g_pos g)) * dragLerp cfg"
    and "maxStepPerFrame cfg < hypot dx dy"
    and "k = maxStepPerFrame cfg / hypot dx dy"
  shows "easedStep cfg (d_target d) (g_pos g) = (dx * k, dy * k)
         \<and> 0 < k
         \<and> hypot (dx * k) (dy * k) = maxStepPerFrame cfg
         \<and> update cfg s = Inr (s\<lparr>groups := write_group
               (g\<lparr>g_pos := (fst (g_pos g) + js_round (dx * k), snd (g_pos g) + js_round (dy * k))\<rparr>)
               (groups s)\<rparr>)
         \<and> \<bar>real_of_int (js_round (dx * k)) - dx * k\<bar> \<le> 1 / 2
         \<and> \<bar>real_of_int (js_round (dy * k)) - dy * k\<bar> \<le> 1 / 2"
proof -
  note cs = cappedStep_capped [OF assms(1) assms(6) assms(7)]
  have es: "easedStep cfg (d_target d) (g_pos g) = (dx * k, dy * k)"
    using cs(1) assms(4,5) by (simp add: easedStep_def)
  have up: "update cfg s = Inr (s\<lparr>groups := write_group
               (g\<lparr>g_pos := (fst (g_pos g) + js_round (dx * k), snd (g_pos g) + js_round (dy * k))\<rparr>)
               (groups s)\<rparr>)"
    using assms(2,3) es by (simp add: update_def Let_def js_round_add_int)
  show ?thesis using es cs(2,3) up js_round_close by blast
qed

lemma sDrag_simps [simp]:
  "drag sDrag = Some \<lparr>groupId = ''b'', offsetX = 0, offsetY = 0, d_target = (250, 600)\<rparr>"
  "groups sDrag = [(''a'', \<lparr>g_id = ''a'', g_members = [0], g_pos = (0, 0)\<rparr>),
                   (''b'', \<lparr>g_id = ''b'', g_members = [1], g_pos = (0, 0)\<rparr>)]"
  by (simp_all add: sDrag_def)

lemma hypot_50_120: "hypot 50 120 = 130"
  by (rule hypot_eqI) simp_all

lemma hypot_4_9: "hypot 4 9 \<noteq> 10"
proof
  assume "hypot 4 9 = 10"
  have "hypot 4 9 \<le> 99 / 10" by (subst hypot_le_iff) simp
  with \<open>hypot 4 9 = 10\<close> show False by simp
qed

theorem update_capped_step_witness:
  "0 < maxStepPerFrame cfg21
   \<and> drag sDrag = Some \<lparr>groupId = ''b'', offsetX = 0, offsetY = 0, d_target = (250, 600)\<rparr>
   \<and> map_get ''b'' (groups sDrag) = Some \<lparr>g_id = ''b'', g_members = [1], g_pos = (0, 0)\<rparr>
   \<and> maxStepPerFrame cfg21 < hypot 50 120
   \<and> easedStep cfg21 (250, 600) (0, 0) = (50 * (1 / 13), 120 * (1 / 13))
   \<and> hypot (50 * (1 / 13)) (120 * (1 / 13)) = maxStepPerFrame cfg21
   \<and> update cfg21 sDrag = Inr (sDrag\<lparr>groups := write_group
           \<lparr>g_id = ''b'', g_members = [1], g_pos = (4, 9)\<rparr> (groups sDrag)\<rparr>)"
proof -
  let ?d = "\<lparr>groupId = ''b'', offsetX = 0, offsetY = 0, d_target = (250, 600)\<rparr>"
  let ?g = "\<lparr>g_id = ''b'', g_members = [1], g_pos = (0, 0)\<rparr>"
  have h1: "0 < maxStepPerFrame cfg21" by simp
  have h2: "drag sDrag = Some ?d" by simp
  have h3: "map_get (groupId ?d) (groups sDrag) = Some ?g" by (simp add: map_get_def)
  have h4: "(50::real) = real_of_int (fst (d_target ?d) - fst (g_pos ?g)) * dragLerp cfg21" by simp
  have h5: "(120::real) = real_of_int (snd (d_target ?d) - snd (g_pos ?g)) * dragLerp cfg21" by simp
  have h6: "maxStepPerFrame cfg21 < hypot 50 120" by (simp add: hypot_50_120)
  have h7: "(1 / 13 :: real) = maxStepPerFrame cfg21 / hypot 50 120" by (simp add: hypot_50_120)
  have r1: "js_round (50 / 13) = 4" "js_round (120 / 13) = 9"
    by (simp_all add: js_round_def)
  from update_capped_step [OF h1 h2 h3 h4 h5 h6 h7] h1 h2 h3 h6 show ?thesis
    by (simp add: r1)
qed

text \<open>
  Claim C7 as stated fails. With the default options, a cluster at offset \<open>(0, 0)\<close>
  whose drag target is \<open>(250, 600)\<close> has the eased step \<open>(50, 120)\<close> of length 130, which
  exceeds the cap 10; the frame moves the cluster to \<open>(4, 9)\<close>, a change of magnitude
  \<open>sqrt 97\<close>, not 10.
\<close>

theorem update_step_magnitude_counterexample:
  "maxStepPerFrame cfg21 < hypot (real_of_int (250 - 0) * dragLerp cfg21)
                                 (real_of_int (600 - 0) * dragLerp cfg21)
   \<and> update cfg21 sDrag = Inr (sDrag\<lparr>groups :=
         [(''a'', \<lparr>g_id = ''a'', g_members = [0], g_pos = (0, 0)\<rparr>),
          (''b'', \<lparr>g_id = ''b'', g_members = [1], g_pos = (4, 9)\<rparr>)]\<rparr>)
   \<and> hypot (real_of_int (4 - 0)) (real_of_int (9 - 0)) \<noteq> maxStepPerFrame cfg21"
proof -
  have e: "cappedStep cfg21 (50, 120) = (50 / 13, 120 / 13)"
    by (simp add: cappedStep_def Let_def hypot_50_120)
  have r1: "js_round (50 / 13) = 4" "js_round (120 / 13) = 9"
    by (simp_all add: js_round_def)
  have "update cfg21 sDrag = Inr (sDrag\<lparr>groups :=
         [(''a'', \<lparr>g_id = ''a'', g_members = [0], g_pos = (0, 0)\<rparr>),
          (''b'', \<lparr>g_id = ''b'', g_members = [1], g_pos = (4, 9)\<rparr>)]\<rparr>)"
    by (simp add: update_def map_get_def easedStep_def e r1 write_group_def)
  then show ?thesis using hypot_4_9 by (simp add: hypot_50_120)
qed


section \<open>Hit test\<close>

definition outsideCell :: "piece \<Rightarrow> group \<Rightarrow> real \<Rightarrow> real \<Rightarrow> bool" where
  \<comment> \<open>\<open>(x, y)\<close> lies strictly outside the cell rectangle of \<open>p\<close>, placed at the offset of \<open>g\<close>\<close>
  "outsideCell p g x y =
     (x < real_of_int (fst (p_target p) + fst (g_pos g))
      \<or> x > real_of_int (fst (p_target p) + fst (g_pos g) + fst (p_size p))
      \<or> y < real_of_int (snd (p_target p) + snd (g_pos g))
      \<or> y > real_of_int (snd (p_target p) + snd (g_pos g) + snd (p_size p)))"

definition sHit :: state where
  "sHit = \<lparr>pieces = createPieces cfg21,
           groups = [(''a'', \<lparr>g_id = ''a'', g_members = [0], g_pos = (0, 0)\<rparr>),
                     (''b'', \<lparr>g_id = ''b'', g_members = [1], g_pos = (200, 0)\<rparr>)],
           pieceToGroup = [0 \<mapsto> ''a'', 1 \<mapsto> ''b''],
           drag = None\<rparr>"

lemma pieceById_SomeD: "pieceById s i = Some p \<Longrightarrow> p_id p = i \<and> p \<in> set (pieces s)"
  by (auto simp: pieceById_def find_Some_iff)

lemma hitMembers_Some:
  "hitMembers inPath cfg s g x y ids = Inr (Some p) \<Longrightarrow>
   p_id p \<in> set ids \<and> pieceById s (p_id p) = Some p \<and> \<not> outsideCell p g x y"
proof (induction ids)
  case Nil
  then show ?case by simp
next
  case (Cons i ids)
  show ?case
  proof (cases "pieceById s i")
    case None
    with Cons.prems show ?thesis by simp
  next
    case (Some q)
    then have qi: "p_id q = i" by (simp add: pieceById_SomeD)
    show ?thesis
    proof (cases "outsideCell q g x y")
      case True
      then have "hitMembers inPath cfg s g x y (i # ids) = hitMembers inPath cfg s g x y ids"
        using Some by (auto simp: outsideCell_def Let_def)
      with Cons show ?thesis by simp
    next
      case False
      then have box: "\<not> (x < real_of_int (fst (p_target q) + fst (g_pos g))
                   \<or> y < real_of_int (snd (p_target q) + snd (g_pos g))
                   \<or> x > real_of_int (fst (p_target q) + fst (g_pos g) + fst (p_size q))
                   \<or> y > real_of_int (snd (p_target q) + snd (g_pos g) + snd (p_size q)))"
        by (auto simp: outsideCell_def)
      show ?thesis
      proof (cases "pathFn cfg (hEdges cfg) (vEdges cfg) (p_r q) (p_c q)")
        case (Inl e)
        with Cons.prems Some box show ?thesis by (simp add: Let_def)
      next
        case (Inr path)
        show ?thesis
        proof (cases "inPath (map (translate (fst (p_target q) + fst (g_pos g), snd (p_target q) + snd (g_pos g))) path)
                 (x - real_of_int (fst (p_target q) + fst (g_pos g)), y - real_of_int (snd (p_target q) + snd (g_pos g)))")
          case True
          with Cons.prems Some box Inr have "p = q" by (simp add: Let_def)
          with False Some qi show ?thesis by simp
        next
          case nohit: False
          with Cons.prems Some box Inr
          have "hitMembers inPath cfg s g x y ids = Inr (Some p)" by (simp add: Let_def)
          with Cons.IH show ?thesis by simp
        qed
      qed
    qed
  qed
qed

lemma hitGroups_Some:
  "hitGroups inPath cfg s x y gs = Inr (Some p) \<Longrightarrow>
   \<exists>g\<in>set gs. p_id p \<in> set (g_members g) \<and> pieceById s (p_id p) = Some p \<and> \<not> outsideCell p g x y"
proof (induction gs)
  case Nil
  then show ?case by simp
next
  case (Cons g gs)
  show ?case
  proof (cases "hitMembers inPath cfg s g x y (rev (g_members g))")
    case (Inl e)
    with Cons.prems show ?thesis by simp
  next
    case (Inr r)
    show ?thesis
    proof (cases r)
      case None
      with Inr Cons show ?thesis by simp
    next
      case (Some q)
      with Inr Cons.prems have "q = p" by simp
      with Inr Some hitMembers_Some [of inPath cfg s g x y "rev (g_members g)" p]
      show ?thesis by simp
    qed
  qed
qed

lemma hitTest_Some:
  assumes "hitTest inPath cfg s x y = Inr (Some p)"
  shows "\<exists>kg\<in>set (groups s). p_id p \<in> set (g_members (snd kg))
           \<and> pieceById s (p_id p) = Some p \<and> \<not> outsideCell p (snd kg) x y"
  using hitGroups_Some [OF assms [unfolded hitTest_def]] by auto

lemma distinct_concat_unique:
  assumes "distinct (concat (map f xs))" "a \<in> set xs" "b \<in> set xs" "i \<in> set (f a)" "i \<in> set (f b)"
  shows "a = b"
  using assms
proof (induction xs)
  case Nil
  then show ?case by simp
next
  case (Cons x xs)
  then show ?case by (auto simp: disjoint_iff)
qed

lemma partition_inv_cluster_unique:
  assumes "partition_inv s" "kg \<in> set (groups s)" "i \<in> set (g_members (snd kg))"
    and "pieceToGroup s i = Some k" "map_get k (groups s) = Some g" "i \<in> p_id ` set (pieces s)"
  shows "kg = (k, g)"
proof -
  from assms(6) obtain p where p: "p \<in> set (pieces s)" "p_id p = i" by auto
  with assms(1,4,5) have ig: "i \<in> set (g_members g)"
    by (auto simp: partition_inv_def list_all_iff)
  have kg': "(k, g) \<in> set (groups s)" using assms(5) by (auto simp: map_get_def dest: map_of_SomeD)
  have "distinct (concat (map (\<lambda>kg. g_members (snd kg)) (groups s)))"
    using assms(1) by (simp add: partition_inv_def allMembers_def)
  from distinct_concat_unique [OF this assms(2) kg'] assms(3) ig show ?thesis by simp
qed

lemma pathFn_interior_start:
  assumes "1 < rows cfg" "0 < cols cfg"
  shows "\<exists>path. pathFn cfg (hEdges cfg) (vEdges cfg) 1 0 = Inr path
           \<and> hd path = hd (hPoly cfg 1 0)"
proof -
  have "hPoly cfg r c \<noteq> []" for r c by (simp add: hPoly_def N_seg_def)
  then show ?thesis using assms
    by (simp add: pathFn_def topEdge_def rightEdge_def bottomEdge_def leftEdge_def
        edgeAt_hEdges edgeAt_vEdges topPts_def)
qed

text \<open>
  Claim C10. A piece is never returned for a point strictly outside its cell rectangle,
  whatever the canvas answers for the path test. The wavy path does leave the rectangle:
  on every board with at least two rows the path of the piece in row 1, column 0 starts
  at a vertex that lies strictly above its cell, so for that point of its drawn boundary
  the hit test cannot return the piece.
\<close>

theorem hitTest_rejects_outside_cell:
  "(partition_inv s \<and> p \<in> set (pieces s) \<and> pieceToGroup s (p_id p) = Some k
      \<and> map_get k (groups s) = Some g \<and> outsideCell p g x y
      \<longrightarrow> hitTest inPath cfg s x y \<noteq> Inr (Some p))
   \<and> (1 < rows cfg' \<and> 0 < cols cfg' \<and> q = createPieces cfg' ! (1 * cols cfg' + 0) \<longrightarrow>
        (\<exists>path. pathFn cfg' (hEdges cfg') (vEdges cfg') (p_r q) (p_c q) = Inr path
           \<and> outsideCell q g'
                 (real_of_int (fst (translate (fst (p_target q) + fst (g_pos g'),
                                               snd (p_target q) + snd (g_pos g')) (hd path))))
                 (real_of_int (snd (translate (fst (p_target q) + fst (g_pos g'),
                                               snd (p_target q) + snd (g_pos g')) (hd path))))))"
proof (intro conjI impI)
  assume a: "partition_inv s \<and> p \<in> set (pieces s) \<and> pieceToGroup s (p_id p) = Some k
      \<and> map_get k (groups s) = Some g \<and> outsideCell p g x y"
  show "hitTest inPath cfg s x y \<noteq> Inr (Some p)"
  proof
    assume "hitTest inPath cfg s x y = Inr (Some p)"
    from hitTest_Some [OF this] obtain kg where kg: "kg \<in> set (groups s)"
      "p_id p \<in> set (g_members (snd kg))" "\<not> outsideCell p (snd kg) x y" by blast
    have "p_id p \<in> p_id ` set (pieces s)" using a by blast
    with partition_inv_cluster_unique [OF _ kg(1,2), of k g] a have "kg = (k, g)" by blast
    with kg(3) a show False by simp
  qed
next
  assume a: "1 < rows cfg' \<and> 0 < cols cfg' \<and> q = createPieces cfg' ! (1 * cols cfg' + 0)"
  then have q: "q = mkPiece cfg' (1 * cols cfg' + 0, 1, 0)"
    using createPieces_at [of 1 cfg' 0] by simp
  from a have rc: "1 < rows cfg'" "0 < cols cfg'" by blast+
  from pathFn_interior_start [OF rc] obtain path where
    path: "pathFn cfg' (hEdges cfg') (vEdges cfg') 1 0 = Inr path" "hd path = hd (hPoly cfg' 1 0)"
    by blast
  have neg: "snd (hd path) < 0" using interior_edge_not_pinned(1) [of cfg'] a path(2) by simp
  obtain vx vy where v: "hd path = (vx, vy)" by (cases "hd path")
  with neg have "vy < 0" by simp
  then have "outsideCell q g'
                 (real_of_int (fst (translate (fst (p_target q) + fst (g_pos g'),
                                               snd (p_target q) + snd (g_pos g')) (hd path))))
                 (real_of_int (snd (translate (fst (p_target q) + fst (g_pos g'),
                                               snd (p_target q) + snd (g_pos g')) (hd path))))"
    by (simp add: v translate_def outsideCell_def)
  with path(1) q show "\<exists>path. pathFn cfg' (hEdges cfg') (vEdges cfg') (p_r q) (p_c q) = Inr path
           \<and> outsideCell q g'
                 (real_of_int (fst (translate (fst (p_target q) + fst (g_pos g'),
                                               snd (p_target q) + snd (g_pos g')) (hd path))))
                 (real_of_int (snd (translate (fst (p_target q) + fst (g_pos g'),
                                               snd (p_target q) + snd (g_pos g')) (hd path))))"
    by (auto simp: mkPiece_def)
qed

lemma createPieces_cfg21:
  "createPieces cfg21 = [mkPiece cfg21 (0, 0, 0), mkPiece cfg21 (1, 1, 0)]"
  by (simp add: createPieces_eq upt_rec)

lemma sHit_simps [simp]:
  "pieces sHit = createPieces cfg21"
  "groups sHit = [(''a'', \<lparr>g_id = ''a'', g_members = [0], g_pos = (0, 0)\<rparr>),
                  (''b'', \<lparr>g_id = ''b'', g_members = [1], g_pos = (200, 0)\<rparr>)]"
  "pieceToGroup sHit = [0 \<mapsto> ''a'', 1 \<mapsto> ''b'']"
  by (simp_all add: sHit_def)

lemma partition_inv_sHit: "partition_inv sHit"
  by (simp add: partition_inv_def allMembers_def createPieces_cfg21 mkPiece_def map_get_def)

lemma hitTest_sHit: "hitTest (\<lambda>path pt. True) cfg21 sHit 200 48 = Inr None"
  by (simp add: hitTest_def pieceById_def createPieces_cfg21 mkPiece_def)

theorem hitTest_rejects_outside_cell_witness:
  "(partition_inv sHit \<and> mkPiece cfg21 (1, 1, 0) \<in> set (pieces sHit)
      \<and> pieceToGroup sHit (p_id (mkPiece cfg21 (1, 1, 0))) = Some ''b''
      \<and> map_get ''b'' (groups sHit) = Some \<lparr>g_id = ''b'', g_members = [1], g_pos = (200, 0)\<rparr>
      \<and> outsideCell (mkPiece cfg21 (1, 1, 0)) \<lparr>g_id = ''b'', g_members = [1], g_pos = (200, 0)\<rparr> 200 48)
   \<and> hitTest (\<lambda>path pt. True) cfg21 sHit 200 48 \<noteq> Inr (Some (mkPiece cfg21 (1, 1, 0)))
   \<and> hitTest (\<lambda>path pt. True) cfg21 sHit 200 48 = Inr None
   \<and> (1 < rows cfg21 \<and> 0 < cols cfg21)
   \<and> (\<exists>path. pathFn cfg21 (hEdges cfg21) (vEdges cfg21) 1 0 = Inr path
          \<and> translate (200, 50) (hd path) = (200, 48))"
proof -
  let ?p = "mkPiece cfg21 (1, 1, 0)"
  let ?g = "\<lparr>g_id = ''b'', g_members = [1], g_pos = (200, 0)\<rparr>"
  have h: "partition_inv sHit \<and> ?p \<in> set (pieces sHit)
      \<and> pieceToGroup sHit (p_id ?p) = Some ''b''
      \<and> map_get ''b'' (groups sHit) = Some ?g
      \<and> outsideCell ?p ?g 200 48"
    by (simp add: partition_inv_sHit createPieces_cfg21 map_get_def outsideCell_def mkPiece_def)
  have h': "1 < rows cfg21 \<and> 0 < cols cfg21
            \<and> createPieces cfg21 ! 1 = createPieces cfg21 ! (1 * cols cfg21 + 0)"
    by simp
  have q: "createPieces cfg21 ! 1 = ?p" by (simp add: createPieces_cfg21)
  from hitTest_rejects_outside_cell
         [of sHit ?p "''b''" ?g 200 48 "\<lambda>path pt. True" cfg21 cfg21 "createPieces cfg21 ! 1" ?g] h h'
  have c1: "hitTest (\<lambda>path pt. True) cfg21 sHit 200 48 \<noteq> Inr (Some ?p)"
    by blast
  from pathFn_interior_start [of cfg21] obtain path where
    path: "pathFn cfg21 (hEdges cfg21) (vEdges cfg21) 1 0 = Inr path" "hd path = hd (hPoly cfg21 1 0)"
    by auto
  have "translate (200, 50) (hd path) = (200, 48)"
    using path(2) hPoly_cfg21_ends(1) by (simp add: translate_def)
  with path(1) h c1 hitTest_sHit show ?thesis by simp
qed


section \<open>The cluster registry under a merge\<close>

definition absorb :: "state \<Rightarrow> group \<Rightarrow> group \<Rightarrow> state" where
  \<comment> \<open>the state \<open>_mergeGroups\<close> leaves when \<open>add\<close> is folded into \<open>base\<close>\<close>
  "absorb s base add =
     s\<lparr>groups := map_delete (g_id add)
                   (write_group (base\<lparr>g_members := fold set_add (g_members add) (g_members base)\<rparr>)
                                (groups s)),
       pieceToGroup := fold (\<lambda>pid m. m(pid \<mapsto> g_id base)) (g_members add) (pieceToGroup s)\<rparr>"

definition membersOf :: "(gid \<times> group) list \<Rightarrow> nat list" where
  "membersOf gs = concat (map (\<lambda>kg. g_members (snd kg)) gs)"

lemma allMembers_membersOf: "allMembers s = membersOf (groups s)"
  by (simp add: allMembers_def membersOf_def)

lemma mergeGroups_absorb:
  "fst (mergeGroups s gA gB)
     = (if length (g_members gA) \<le> length (g_members gB) then absorb s gB gA else absorb s gA gB)"
  by (simp add: mergeGroups_def absorb_def Let_def)

lemma map_fst_write_group [simp]: "map fst (write_group g gs) = map fst gs"
  by (induction gs) (auto simp: write_group_def)

lemma map_fst_map_delete: "map fst (map_delete k gs) = filter (\<lambda>k'. k' \<noteq> k) (map fst gs)"
  by (induction gs) (auto simp: map_delete_def)

lemma map_get_map_delete: "map_get k (map_delete k' gs) = (if k = k' then None else map_get k gs)"
  by (induction gs) (auto simp: map_get_def map_delete_def)

lemma map_get_write_group_same:
  "g_id g \<in> fst ` set gs \<Longrightarrow> map_get (g_id g) (write_group g gs) = Some g"
  by (induction gs) (auto simp: map_get_def write_group_def)

lemma map_get_in_keys: "map_get k gs = Some g \<Longrightarrow> k \<in> fst ` set gs"
  by (auto simp: map_get_def dest: map_of_SomeD intro: rev_image_eqI)

lemma map_delete_write_group:
  "k \<noteq> g_id g \<Longrightarrow> map_delete k (write_group g gs) = write_group g (map_delete k gs)"
  by (induction gs) (auto simp: map_delete_def write_group_def split: if_splits)

lemma map_delete_absent: "k \<notin> fst ` set gs \<Longrightarrow> map_delete k gs = gs"
  by (force simp: map_delete_def filter_id_conv)

lemma length_map_delete:
  "distinct (map fst gs) \<Longrightarrow> k \<in> fst ` set gs \<Longrightarrow> length (map_delete k gs) + 1 = length gs"
proof (induction gs)
  case Nil
  then show ?case by simp
next
  case (Cons a gs)
  show ?case
  proof (cases "fst a = k")
    case True
    with Cons.prems have "k \<notin> fst ` set gs" by auto
    then have "map_delete k gs = gs" by (rule map_delete_absent)
    then show ?thesis using True by (simp add: map_delete_def case_prod_beta)
  next
    case False
    with Cons show ?thesis by (auto simp: map_delete_def case_prod_beta)
  qed
qed

lemma length_write_group [simp]: "length (write_group g gs) = length gs"
  by (simp add: write_group_def)

lemma mset_membersOf_delete:
  "distinct (map fst gs) \<Longrightarrow> map_get k gs = Some g \<Longrightarrow>
   mset (membersOf gs) = mset (g_members g) + mset (membersOf (map_delete k gs))"
proof (induction gs)
  case Nil
  then show ?case by (simp add: map_get_def)
next
  case (Cons a gs)
  show ?case
  proof (cases "fst a = k")
    case True
    with Cons.prems have "k \<notin> fst ` set gs" "snd a = g" by (auto simp: map_get_def)
    then show ?thesis using True
      by (simp add: membersOf_def map_delete_absent [unfolded map_delete_def] map_delete_def case_prod_beta)
  next
    case False
    with Cons.prems have "map_get k gs = Some g" by (cases a) (auto simp: map_get_def)
    with Cons False show ?thesis
      by (simp add: membersOf_def map_delete_def case_prod_beta)
  qed
qed

lemma mset_membersOf_write:
  assumes "distinct (map fst gs)" "g_id g' \<in> fst ` set gs"
  shows "mset (membersOf (write_group g' gs))
           = mset (g_members g') + mset (membersOf (map_delete (g_id g') gs))"
proof -
  have "map_get (g_id g') (write_group g' gs) = Some g'"
    using assms(2) by (rule map_get_write_group_same)
  moreover have "distinct (map fst (write_group g' gs))" using assms(1) by simp
  ultimately have "mset (membersOf (write_group g' gs))
      = mset (g_members g') + mset (membersOf (map_delete (g_id g') (write_group g' gs)))"
    by (rule mset_membersOf_delete [rotated])
  moreover have "map_delete (g_id g') (write_group g' gs) = map_delete (g_id g') gs"
    by (induction gs) (auto simp: map_delete_def write_group_def)
  ultimately show ?thesis by simp
qed

lemma fold_set_add_disjoint:
  "distinct xs \<Longrightarrow> set xs \<inter> set ms = {} \<Longrightarrow> fold set_add xs ms = ms @ xs"
  by (induction xs arbitrary: ms) (auto simp: set_add_def)

lemma fold_index:
  "fold (\<lambda>pid m. m(pid \<mapsto> b)) xs m i = (if i \<in> set xs then Some b else m i)"
  by (induction xs arbitrary: m) auto

lemma partition_invD:
  assumes "partition_inv s"
  shows "distinct (map fst (groups s))"
    and "(k, g) \<in> set (groups s) \<Longrightarrow> g_id g = k"
    and "distinct (membersOf (groups s))"
    and "set (membersOf (groups s)) = p_id ` set (pieces s)"
  using assms
  by (auto simp: partition_inv_def allMembers_membersOf list_all_iff)

lemma partition_inv_index:
  assumes "partition_inv s" "p \<in> set (pieces s)"
  shows "\<exists>k g. pieceToGroup s (p_id p) = Some k \<and> map_get k (groups s) = Some g
               \<and> p_id p \<in> set (g_members g)"
proof -
  from assms have c: "case pieceToGroup s (p_id p) of
                        None \<Rightarrow> False
                      | Some k \<Rightarrow> (case map_get k (groups s) of
                                    None \<Rightarrow> False
                                  | Some g \<Rightarrow> p_id p \<in> set (g_members g))"
    by (simp add: partition_inv_def list_all_iff)
  then obtain k where k: "pieceToGroup s (p_id p) = Some k"
    by (cases "pieceToGroup s (p_id p)") simp_all
  with c obtain g where "map_get k (groups s) = Some g" "p_id p \<in> set (g_members g)"
    by (cases "map_get k (groups s)") simp_all
  with k show ?thesis by blast
qed

lemma absorb_members:
  assumes inv: "partition_inv s"
    and rb: "map_get (g_id base) (groups s) = Some base"
    and ra: "map_get (g_id add) (groups s) = Some add"
    and ne: "g_id base \<noteq> g_id add"
  shows "distinct (g_members base @ g_members add)"
    and "fold set_add (g_members add) (g_members base) = g_members base @ g_members add"
proof -
  note dk = partition_invD(1) [OF inv]
  have m1: "mset (membersOf (groups s))
        = mset (g_members base) + mset (membersOf (map_delete (g_id base) (groups s)))"
    using dk rb by (rule mset_membersOf_delete)
  have "distinct (map fst (map_delete (g_id base) (groups s)))"
    using dk by (simp add: map_fst_map_delete)
  moreover have "map_get (g_id add) (map_delete (g_id base) (groups s)) = Some add"
    using ra ne by (simp add: map_get_map_delete)
  ultimately have m2: "mset (membersOf (map_delete (g_id base) (groups s)))
        = mset (g_members add)
          + mset (membersOf (map_delete (g_id add) (map_delete (g_id base) (groups s))))"
    by (rule mset_membersOf_delete)
  have "mset (membersOf (groups s))
        = mset ((g_members base @ g_members add)
                @ membersOf (map_delete (g_id add) (map_delete (g_id base) (groups s))))"
    using m1 m2 by simp
  from mset_eq_imp_distinct_iff [OF this] partition_invD(3) [OF inv]
  have "distinct ((g_members base @ g_members add)
                @ membersOf (map_delete (g_id add) (map_delete (g_id base) (groups s))))"
    by simp
  then show d: "distinct (g_members base @ g_members add)" by auto
  then show "fold set_add (g_members add) (g_members base) = g_members base @ g_members add"
    by (intro fold_set_add_disjoint) auto
qed

lemma absorb_groups:
  assumes inv: "partition_inv s"
    and rb: "map_get (g_id base) (groups s) = Some base"
    and ra: "map_get (g_id add) (groups s) = Some add"
    and ne: "g_id base \<noteq> g_id add"
  shows "map_get (g_id base) (groups (absorb s base add))
           = Some (base\<lparr>g_members := g_members base @ g_members add\<rparr>)"
    and "map_get (g_id add) (groups (absorb s base add)) = None"
    and "k \<noteq> g_id base \<Longrightarrow> map_get k (groups (absorb s base add))
           = (if k = g_id add then None else map_get k (groups s))"
    and "length (groups (absorb s base add)) + 1 = length (groups s)"
    and "mset (membersOf (groups (absorb s base add))) = mset (membersOf (groups s))"
    and "pieceToGroup (absorb s base add) i
           = (if i \<in> set (g_members add) then Some (g_id base) else pieceToGroup s i)"
    and "pieces (absorb s base add) = pieces s"
    and "drag (absorb s base add) = drag s"
proof -
  note dk = partition_invD(1) [OF inv]
  let ?b = "base\<lparr>g_members := g_members base @ g_members add\<rparr>"
  have gs: "groups (absorb s base add) = map_delete (g_id add) (write_group ?b (groups s))"
    using absorb_members(2) [OF inv rb ra ne] by (simp add: absorb_def)
  have kb: "g_id base \<in> fst ` set (groups s)" using rb by (rule map_get_in_keys)
  have ka: "g_id add \<in> fst ` set (groups s)" using ra by (rule map_get_in_keys)
  have wb: "map_get (g_id base) (write_group ?b (groups s)) = Some ?b"
    using map_get_write_group_same [of ?b "groups s"] kb by simp
  show "map_get (g_id base) (groups (absorb s base add)) = Some ?b"
    using wb ne by (simp add: gs map_get_map_delete)
  show "map_get (g_id add) (groups (absorb s base add)) = None"
    by (simp add: gs map_get_map_delete)
  show "k \<noteq> g_id base \<Longrightarrow> map_get k (groups (absorb s base add))
           = (if k = g_id add then None else map_get k (groups s))"
    by (simp add: gs map_get_map_delete map_get_write_group_other)
  have "g_id add \<in> fst ` set (write_group ?b (groups s))"
    using ka by (metis map_fst_write_group set_map)
  then show "length (groups (absorb s base add)) + 1 = length (groups s)"
    using length_map_delete [of "write_group ?b (groups s)" "g_id add"] dk by (simp add: gs)
  have w1: "mset (membersOf (write_group ?b (groups s)))
        = mset (g_members ?b) + mset (membersOf (map_delete (g_id base) (groups s)))"
    using mset_membersOf_write [of "groups s" ?b] dk kb by simp
  have "map_get (g_id add) (write_group ?b (groups s)) = Some add"
    using ra ne by (simp add: map_get_write_group_other)
  then have w2: "mset (membersOf (write_group ?b (groups s)))
        = mset (g_members add) + mset (membersOf (map_delete (g_id add) (write_group ?b (groups s))))"
    using dk by (intro mset_membersOf_delete) simp_all
  have m1: "mset (membersOf (groups s))
        = mset (g_members base) + mset (membersOf (map_delete (g_id base) (groups s)))"
    using dk rb by (rule mset_membersOf_delete)
  show "mset (membersOf (groups (absorb s base add))) = mset (membersOf (groups s))"
    using w1 w2 m1 by (simp add: gs)
  show "pieceToGroup (absorb s base add) i
           = (if i \<in> set (g_members add) then Some (g_id base) else pieceToGroup s i)"
    by (simp add: absorb_def fold_index)
  show "pieces (absorb s base add) = pieces s" "drag (absorb s base add) = drag s"
    by (simp_all add: absorb_def)
qed

lemma absorb_inv:
  assumes inv: "partition_inv s"
    and rb: "map_get (g_id base) (groups s) = Some base"
    and ra: "map_get (g_id add) (groups s) = Some add"
    and ne: "g_id base \<noteq> g_id add"
  shows "partition_inv (absorb s base add)"
proof -
  note dk = partition_invD(1) [OF inv]
  note ag = absorb_groups [OF inv rb ra ne]
  let ?s = "absorb s base add"
  let ?b = "base\<lparr>g_members := g_members base @ g_members add\<rparr>"
  have gs: "groups ?s = map_delete (g_id add) (write_group ?b (groups s))"
    using absorb_members(2) [OF inv rb ra ne] by (simp add: absorb_def)
  have c1: "distinct (map fst (groups ?s))"
    using dk by (simp add: gs map_fst_map_delete)
  have c2: "list_all (\<lambda>kg. g_id (snd kg) = fst kg) (groups ?s)"
    using partition_invD(2) [OF inv]
    by (auto simp: gs list_all_iff map_delete_def write_group_def split: if_splits)
  have c3: "distinct (membersOf (groups ?s))"
    using mset_eq_imp_distinct_iff [OF ag(5)] partition_invD(3) [OF inv] by simp
  have c4: "set (membersOf (groups ?s)) = p_id ` set (pieces ?s)"
    using mset_eq_setD [OF ag(5)] partition_invD(4) [OF inv] ag(7) by simp
  have c5: "list_all (\<lambda>p. case pieceToGroup ?s (p_id p) of
                        None \<Rightarrow> False
                      | Some k \<Rightarrow> (case map_get k (groups ?s) of
                                    None \<Rightarrow> False
                                  | Some g \<Rightarrow> p_id p \<in> set (g_members g))) (pieces ?s)"
    unfolding list_all_iff
  proof
    fix p assume "p \<in> set (pieces ?s)"
    then have p: "p \<in> set (pieces s)" by (simp add: ag(7))
    show "case pieceToGroup ?s (p_id p) of
                        None \<Rightarrow> False
                      | Some k \<Rightarrow> (case map_get k (groups ?s) of
                                    None \<Rightarrow> False
                                  | Some g \<Rightarrow> p_id p \<in> set (g_members g))"
    proof (cases "p_id p \<in> set (g_members add)")
      case True
      then show ?thesis by (simp add: ag(6) ag(1))
    next
      case False
      from partition_inv_index [OF inv p] obtain k g where
        kg: "pieceToGroup s (p_id p) = Some k" "map_get k (groups s) = Some g"
            "p_id p \<in> set (g_members g)" by blast
      have "k \<noteq> g_id add" using kg ra False by auto
      show ?thesis
      proof (cases "k = g_id base")
        case True
        with kg rb have "g = base" by simp
        with kg True False show ?thesis by (simp add: ag(6) ag(1))
      next
        case nb: False
        with kg False \<open>k \<noteq> g_id add\<close> show ?thesis by (simp add: ag(6) ag(3))
      qed
    qed
  qed
  show ?thesis
    using c1 c2 c3 c4 c5 by (simp add: partition_inv_def allMembers_membersOf)
qed


section \<open>Cluster creation\<close>

definition singleton :: "(nat \<Rightarrow> gid) \<Rightarrow> nat \<times> piece \<Rightarrow> gid \<times> group" where
  "singleton uuid = (\<lambda>(i, p). (uuid i, \<lparr>g_id = uuid i, g_members = [p_id p], g_pos = (0, 0)\<rparr>))"

lemma createGroups_fold:
  assumes "inj_on uuid {..<length ps}"
  shows "fold (\<lambda>(i, p) (gs, idx).
                    (map_set (uuid i) \<lparr>g_id = uuid i, g_members = [p_id p], g_pos = (0, 0)\<rparr> gs,
                     idx(p_id p \<mapsto> uuid i))) (enumerate 0 ps) ([], Map.empty)
         = (map (singleton uuid) (enumerate 0 ps),
            fold (\<lambda>(i, p) idx. idx(p_id p \<mapsto> uuid i)) (enumerate 0 ps) Map.empty)"
  using assms
proof (induction ps rule: rev_induct)
  case Nil
  then show ?case by simp
next
  case (snoc p ps)
  have inj: "inj_on uuid {..<length ps}"
    using snoc.prems by (auto intro: inj_on_subset)
  have "uuid (length ps) \<noteq> uuid j" if "j < length ps" for j
    using inj_onD [OF snoc.prems, of "length ps" j] that by auto
  then have "uuid (length ps) \<notin> uuid ` {..<length ps}" by auto
  then have new: "uuid (length ps) \<notin> fst ` set (map (singleton uuid) (enumerate 0 ps))"
    by (auto simp: singleton_def in_set_enumerate_eq)
  show ?case
    using snoc.IH [OF inj] new
    by (simp add: enumerate_append_eq map_set_def singleton_def)
qed

lemma createGroups_index:
  assumes "distinct (map p_id ps)" "i < length ps"
  shows "fold (\<lambda>(i, p) idx. idx(p_id p \<mapsto> uuid i)) (enumerate 0 ps) Map.empty (p_id (ps ! i))
         = Some (uuid i)"
  using assms
proof (induction ps rule: rev_induct)
  case Nil
  then show ?case by simp
next
  case (snoc p ps)
  show ?case
  proof (cases "i = length ps")
    case True
    then show ?thesis by (simp add: enumerate_append_eq)
  next
    case False
    with snoc.prems have i: "i < length ps" by simp
    then have "p_id (ps ! i) \<in> p_id ` set ps" by simp
    with snoc.prems have "p_id (ps ! i) \<noteq> p_id p" by auto
    with snoc i show ?thesis by (simp add: enumerate_append_eq nth_append)
  qed
qed

lemma createGroups_eq:
  assumes "inj_on uuid {..<length (pieces s)}"
  shows "groups (createGroups uuid s) = map (singleton uuid) (enumerate 0 (pieces s))"
    and "pieceToGroup (createGroups uuid s)
           = fold (\<lambda>(i, p) idx. idx(p_id p \<mapsto> uuid i)) (enumerate 0 (pieces s)) Map.empty"
    and "pieces (createGroups uuid s) = pieces s"
  using createGroups_fold [OF assms] by (simp_all add: createGroups_def Let_def)

lemma partition_inv_createGroups:
  assumes inj: "inj_on uuid {..<length (pieces s)}" and dist: "distinct (map p_id (pieces s))"
  shows "partition_inv (createGroups uuid s)"
proof -
  note cg = createGroups_eq [OF inj]
  let ?ps = "pieces s"
  have keys: "map fst (groups (createGroups uuid s)) = map uuid [0..<length ?ps]"
    unfolding cg(1) by (rule nth_equalityI) (simp_all add: singleton_def nth_enumerate_eq)
  have c1: "distinct (map fst (groups (createGroups uuid s)))"
    unfolding keys using inj by (simp add: distinct_map lessThan_atLeast0)
  have c2: "list_all (\<lambda>kg. g_id (snd kg) = fst kg) (groups (createGroups uuid s))"
    by (auto simp: cg(1) list_all_iff singleton_def)
  have mem: "allMembers (createGroups uuid s) = map p_id ?ps"
  proof -
    have "concat (map (\<lambda>kg. g_members (snd kg)) (map (singleton uuid) (enumerate n ps))) = map p_id ps"
      for n ps by (induction ps arbitrary: n) (simp_all add: singleton_def)
    then show ?thesis by (simp add: allMembers_def cg(1))
  qed
  have c5: "list_all (\<lambda>p. case pieceToGroup (createGroups uuid s) (p_id p) of
                        None \<Rightarrow> False
                      | Some k \<Rightarrow> (case map_get k (groups (createGroups uuid s)) of
                                    None \<Rightarrow> False
                                  | Some g \<Rightarrow> p_id p \<in> set (g_members g))) (pieces (createGroups uuid s))"
    unfolding list_all_iff
  proof
    fix p assume "p \<in> set (pieces (createGroups uuid s))"
    then obtain i where i: "i < length ?ps" "p = ?ps ! i"
      by (auto simp: cg(3) in_set_conv_nth)
    have "(uuid i, \<lparr>g_id = uuid i, g_members = [p_id p], g_pos = (0, 0)\<rparr>)
            \<in> set (groups (createGroups uuid s))"
      using i by (force simp: cg(1) singleton_def in_set_enumerate_eq)
    then have "map_get (uuid i) (groups (createGroups uuid s))
                 = Some \<lparr>g_id = uuid i, g_members = [p_id p], g_pos = (0, 0)\<rparr>"
      using c1 by (simp add: map_get_def)
    with createGroups_index [OF dist i(1), of uuid] i(2)
    show "case pieceToGroup (createGroups uuid s) (p_id p) of
                        None \<Rightarrow> False
                      | Some k \<Rightarrow> (case map_get k (groups (createGroups uuid s)) of
                                    None \<Rightarrow> False
                                  | Some g \<Rightarrow> p_id p \<in> set (g_members g))"
      by (simp add: cg(2))
  qed
  show ?thesis
    using c1 c2 c5 dist by (simp add: partition_inv_def mem cg(3))
qed


section \<open>Merging two clusters\<close>

definition sMerge :: state where
  "sMerge = \<lparr>pieces = createPieces cfg23,
             groups = [(''x'', \<lparr>g_id = ''x'', g_members = [0, 1], g_pos = (5, 5)\<rparr>),
                       (''y'', \<lparr>g_id = ''y'', g_members = [2], g_pos = (0, 0)\<rparr>),
                       (''z'', \<lparr>g_id = ''z'', g_members = [3, 4, 5], g_pos = (7, 0)\<rparr>)],
             pieceToGroup = [0 \<mapsto> ''x'', 1 \<mapsto> ''x'', 2 \<mapsto> ''y'', 3 \<mapsto> ''z'', 4 \<mapsto> ''z'', 5 \<mapsto> ''z''],
             drag = None\<rparr>"

lemma memberCount: "sum_list (map (\<lambda>kg. length (g_members (snd kg))) gs) = length (membersOf gs)"
  by (simp add: membersOf_def length_concat comp_def)

text \<open>
  Claim C5. Merging two distinct registered clusters folds the members of the smaller
  one into the larger one, the second argument surviving on a tie; the survivor keeps its
  id and offset; the index of every migrated piece points to the survivor and no other
  index entry changes; the absorbed id leaves the registry and no other cluster changes;
  the number of clusters drops by exactly one; the member count summed over all clusters
  is unchanged; the partition invariant is kept.
\<close>

theorem mergeGroups_prefers_larger:
  assumes "partition_inv s"
    and "map_get (g_id gA) (groups s) = Some gA"
    and "map_get (g_id gB) (groups s) = Some gB"
    and "g_id gA \<noteq> g_id gB"
    and "base = (if length (g_members gA) \<le> length (g_members gB) then gB else gA)"
    and "add = (if length (g_members gA) \<le> length (g_members gB) then gA else gB)"
    and "s' = fst (mergeGroups s gA gB)"
  shows "map_get (g_id base) (groups s') = Some (base\<lparr>g_members := g_members base @ g_members add\<rparr>)
         \<and> map_get (g_id add) (groups s') = None
         \<and> (k \<noteq> g_id base \<and> k \<noteq> g_id add \<longrightarrow> map_get k (groups s') = map_get k (groups s))
         \<and> pieceToGroup s' i = (if i \<in> set (g_members add) then Some (g_id base) else pieceToGroup s i)
         \<and> length (groups s') + 1 = length (groups s)
         \<and> sum_list (map (\<lambda>kg. length (g_members (snd kg))) (groups s'))
             = sum_list (map (\<lambda>kg. length (g_members (snd kg))) (groups s))
         \<and> partition_inv s'"
proof -
  have s': "s' = absorb s base add"
    using assms(5,6,7) by (simp add: mergeGroups_absorb)
  have rb: "map_get (g_id base) (groups s) = Some base"
    and ra: "map_get (g_id add) (groups s) = Some add"
    and ne: "g_id base \<noteq> g_id add"
    using assms(2-6) by (auto split: if_splits)
  note ag = absorb_groups [OF assms(1) rb ra ne]
  have "length (membersOf (groups s')) = length (membersOf (groups s))"
    using ag(5) unfolding s' by (rule mset_eq_length)
  then show ?thesis
    using ag(1,2,4,6) ag(3) [of k] absorb_inv [OF assms(1) rb ra ne]
    by (simp add: s' memberCount)
qed

lemma createPieces_cfg23:
  "createPieces cfg23 = [mkPiece cfg23 (0, 0, 0), mkPiece cfg23 (1, 0, 1), mkPiece cfg23 (2, 0, 2),
                         mkPiece cfg23 (3, 1, 0), mkPiece cfg23 (4, 1, 1), mkPiece cfg23 (5, 1, 2)]"
  by (simp add: createPieces_eq upt_rec mkPiece_def)

lemma sMerge_simps [simp]:
  "pieces sMerge = createPieces cfg23"
  "groups sMerge = [(''x'', \<lparr>g_id = ''x'', g_members = [0, 1], g_pos = (5, 5)\<rparr>),
                       (''y'', \<lparr>g_id = ''y'', g_members = [2], g_pos = (0, 0)\<rparr>),
                       (''z'', \<lparr>g_id = ''z'', g_members = [3, 4, 5], g_pos = (7, 0)\<rparr>)]"
  "pieceToGroup sMerge = [0 \<mapsto> ''x'', 1 \<mapsto> ''x'', 2 \<mapsto> ''y'', 3 \<mapsto> ''z'', 4 \<mapsto> ''z'', 5 \<mapsto> ''z'']"
  by (simp_all add: sMerge_def)

lemma partition_inv_sMerge: "partition_inv sMerge"
  by (simp add: partition_inv_def allMembers_def createPieces_cfg23 mkPiece_def map_get_def)

theorem mergeGroups_prefers_larger_witness:
  "partition_inv sMerge
   \<and> map_get ''y'' (groups sMerge) = Some \<lparr>g_id = ''y'', g_members = [2], g_pos = (0, 0)\<rparr>
   \<and> map_get ''x'' (groups sMerge) = Some \<lparr>g_id = ''x'', g_members = [0, 1], g_pos = (5, 5)\<rparr>
   \<and> ''y'' \<noteq> ''x''
   \<and> map_get ''x'' (groups (fst (mergeGroups sMerge
          \<lparr>g_id = ''y'', g_members = [2], g_pos = (0, 0)\<rparr>
          \<lparr>g_id = ''x'', g_members = [0, 1], g_pos = (5, 5)\<rparr>)))
        = Some \<lparr>g_id = ''x'', g_members = [0, 1, 2], g_pos = (5, 5)\<rparr>
   \<and> map_get ''y'' (groups (fst (mergeGroups sMerge
          \<lparr>g_id = ''y'', g_members = [2], g_pos = (0, 0)\<rparr>
          \<lparr>g_id = ''x'', g_members = [0, 1], g_pos = (5, 5)\<rparr>))) = None
   \<and> pieceToGroup (fst (mergeGroups sMerge
          \<lparr>g_id = ''y'', g_members = [2], g_pos = (0, 0)\<rparr>
          \<lparr>g_id = ''x'', g_members = [0, 1], g_pos = (5, 5)\<rparr>)) 2 = Some ''x''
   \<and> length (groups (fst (mergeGroups sMerge
          \<lparr>g_id = ''y'', g_members = [2], g_pos = (0, 0)\<rparr>
          \<lparr>g_id = ''x'', g_members = [0, 1], g_pos = (5, 5)\<rparr>))) + 1 = 3
   \<and> partition_inv (fst (mergeGroups sMerge
          \<lparr>g_id = ''y'', g_members = [2], g_pos = (0, 0)\<rparr>
          \<lparr>g_id = ''x'', g_members = [0, 1], g_pos = (5, 5)\<rparr>))"
proof -
  let ?gy = "\<lparr>g_id = ''y'', g_members = [2], g_pos = (0, 0)\<rparr>"
  let ?gx = "\<lparr>g_id = ''x'', g_members = [0, 1], g_pos = (5, 5)\<rparr>"
  have h1: "partition_inv sMerge" by (rule partition_inv_sMerge)
  have h2: "map_get (g_id ?gy) (groups sMerge) = Some ?gy" by (simp add: map_get_def)
  have h3: "map_get (g_id ?gx) (groups sMerge) = Some ?gx" by (simp add: map_get_def)
  have h4: "g_id ?gy \<noteq> g_id ?gx" by simp
  have h5: "?gx = (if length (g_members ?gy) \<le> length (g_members ?gx) then ?gx else ?gy)" by simp
  have h6: "?gy = (if length (g_members ?gy) \<le> length (g_members ?gx) then ?gy else ?gx)" by simp
  from mergeGroups_prefers_larger [OF h1 h2 h3 h4 h5 h6 refl, of "''z''" 2] h1 h2 h3
  show ?thesis by simp
qed


section \<open>Release with \<open>lockOnSnap\<close>: the first qualifying pair decides\<close>

text \<open>
  The scan order of a release, without its effects: the members of the dragged cluster
  in insertion order and, for each, its neighbours left, right, up, down; the result is
  the first member \<open>p\<close> with a neighbour \<open>q\<close> in another cluster \<open>gQ\<close> whose ideal offset is
  within \<open>snapDistance\<close> of the dragged cluster's offset.
\<close>

fun firstNeighbour ::
  "config \<Rightarrow> state \<Rightarrow> group \<Rightarrow> piece \<Rightarrow> piece list \<Rightarrow> (piece \<times> group) option" where
  "firstNeighbour cfg s movedG p [] = None"
| "firstNeighbour cfg s movedG p (q # qs) =
     (case pieceToGroup s (p_id q) of
        None \<Rightarrow> None
      | Some gidQ \<Rightarrow>
          (if gidQ = g_id movedG then firstNeighbour cfg s movedG p qs
           else (case map_get gidQ (groups s) of
                   None \<Rightarrow> None
                 | Some gQ \<Rightarrow>
                     (if withinSnap cfg (ideal p q gQ) (g_pos movedG) then Some (q, gQ)
                      else firstNeighbour cfg s movedG p qs))))"

fun firstSnapFrom ::
  "config \<Rightarrow> state \<Rightarrow> group \<Rightarrow> nat list \<Rightarrow> (piece \<times> piece \<times> group) option" where
  "firstSnapFrom cfg s movedG [] = None"
| "firstSnapFrom cfg s movedG (i # ids) =
     (case pieceById s i of
        None \<Rightarrow> None
      | Some p \<Rightarrow>
          (case firstNeighbour cfg s movedG p (neighbours cfg s p) of
             Some (q, gQ) \<Rightarrow> Some (p, q, gQ)
           | None \<Rightarrow> firstSnapFrom cfg s movedG ids))"

definition firstSnap :: "config \<Rightarrow> state \<Rightarrow> group \<Rightarrow> (piece \<times> piece \<times> group) option" where
  "firstSnap cfg s movedG = firstSnapFrom cfg s movedG (g_members movedG)"

definition snapTo :: "state \<Rightarrow> group \<Rightarrow> point \<Rightarrow> state" where
  \<comment> \<open>the dragged cluster written back with its offset set to \<open>idl\<close>\<close>
  "snapTo s movedG idl = s\<lparr>groups := write_group (movedG\<lparr>g_pos := idl\<rparr>) (groups s)\<rparr>"

definition indexed :: "state \<Rightarrow> piece \<Rightarrow> bool" where
  \<comment> \<open>the index entry of the piece names a registered cluster\<close>
  "indexed s q \<longleftrightarrow> (\<exists>k g. pieceToGroup s (p_id q) = Some k \<and> map_get k (groups s) = Some g)"

lemma ideal_round [simp]:
  "(js_round (real_of_int (fst (ideal p q gQ))), js_round (real_of_int (snd (ideal p q gQ))))
     = ideal p q gQ"
  by simp

lemma scanNeighbours_found:
  "firstNeighbour cfg s movedG p qs = Some (q, gQ) \<Longrightarrow>
   scanNeighbours cfg s movedG p qs
     = Inr (fst (mergeGroups (snapTo s movedG (ideal p q gQ)) (movedG\<lparr>g_pos := ideal p q gQ\<rparr>) gQ),
            fst (snd (mergeGroups (snapTo s movedG (ideal p q gQ)) (movedG\<lparr>g_pos := ideal p q gQ\<rparr>) gQ)),
            True)"
  by (induction qs) (auto simp: Let_def snapTo_def split: option.splits if_splits)

lemma scanNeighbours_none:
  "firstNeighbour cfg s movedG p qs = None \<Longrightarrow> \<forall>q\<in>set qs. indexed s q \<Longrightarrow>
   scanNeighbours cfg s movedG p qs = Inr (s, movedG, False)"
  by (induction qs) (auto simp: Let_def indexed_def split: option.splits if_splits)

lemma firstNeighbour_SomeD:
  "firstNeighbour cfg s movedG p qs = Some (q, gQ) \<Longrightarrow>
   q \<in> set qs \<and> (\<exists>k. pieceToGroup s (p_id q) = Some k \<and> k \<noteq> g_id movedG
                      \<and> map_get k (groups s) = Some gQ)
   \<and> withinSnap cfg (ideal p q gQ) (g_pos movedG)"
  by (induction qs) (auto split: option.splits if_splits)

lemma snapLoop_lock:
  assumes lock: "lockOnSnap cfg"
    and ok: "\<forall>i\<in>set (g_members movedG). \<exists>p. pieceById s i = Some p
               \<and> (\<forall>q\<in>set (neighbours cfg s p). indexed s q)"
  shows "i \<le> length (g_members movedG) \<Longrightarrow>
         snapLoop cfg s movedG i False
           = (case firstSnapFrom cfg s movedG (drop i (g_members movedG)) of
                None \<Rightarrow> Inr s
              | Some (p, q, gQ) \<Rightarrow>
                  Inr (fst (mergeGroups (snapTo s movedG (ideal p q gQ))
                                        (movedG\<lparr>g_pos := ideal p q gQ\<rparr>) gQ)))"
proof (induction "length (g_members movedG) - i" arbitrary: i)
  case 0
  then have "i = length (g_members movedG)" by simp
  then show ?case by (simp add: snapLoop.simps)
next
  case (Suc n)
  then have i: "i < length (g_members movedG)" by simp
  then have dr: "drop i (g_members movedG) = g_members movedG ! i # drop (Suc i) (g_members movedG)"
    by (simp add: Cons_nth_drop_Suc)
  from ok i obtain p where p: "pieceById s (g_members movedG ! i) = Some p"
    "\<forall>q\<in>set (neighbours cfg s p). indexed s q" by (meson nth_mem)
  show ?case
  proof (cases "firstNeighbour cfg s movedG p (neighbours cfg s p)")
    case None
    from scanNeighbours_none [OF None p(2)]
    have sc: "scanNeighbours cfg s movedG p (neighbours cfg s p) = Inr (s, movedG, False)" .
    have "snapLoop cfg s movedG i False = snapLoop cfg s movedG (i + 1) False"
      using i p(1) sc by (subst snapLoop.simps) simp
    also have "\<dots> = (case firstSnapFrom cfg s movedG (drop (i + 1) (g_members movedG)) of
                None \<Rightarrow> Inr s
              | Some (p, q, gQ) \<Rightarrow>
                  Inr (fst (mergeGroups (snapTo s movedG (ideal p q gQ))
                                        (movedG\<lparr>g_pos := ideal p q gQ\<rparr>) gQ)))"
      using Suc i by (intro Suc.hyps(1)) simp_all
    finally show ?thesis using None p(1) by (simp add: dr)
  next
    case (Some a)
    obtain q gQ where a: "a = (q, gQ)" by (cases a)
    from scanNeighbours_found [OF Some [unfolded a]]
    show ?thesis using i p(1) lock Some a
      by (subst snapLoop.simps) (simp add: dr)
  qed
qed


lemma neighbours_subset: "q \<in> set (neighbours cfg s p) \<Longrightarrow> q \<in> set (pieces s)"
  by (auto simp: neighbours_def List.map_filter_def getPiece_def Let_def split: if_splits)

lemma map_get_SomeD: "map_get k gs = Some g \<Longrightarrow> (k, g) \<in> set gs"
  by (simp add: map_get_def map_of_SomeD)

lemma map_get_SomeI: "distinct (map fst gs) \<Longrightarrow> (k, g) \<in> set gs \<Longrightarrow> map_get k gs = Some g"
  by (simp add: map_get_def)

lemma member_in_membersOf: "(k, g) \<in> set gs \<Longrightarrow> i \<in> set (g_members g) \<Longrightarrow> i \<in> set (membersOf gs)"
  by (force simp: membersOf_def)

lemma partition_inv_pieceById:
  assumes "partition_inv s" "map_get k (groups s) = Some g" "i \<in> set (g_members g)"
  shows "\<exists>p. pieceById s i = Some p \<and> p \<in> set (pieces s) \<and> p_id p = i"
proof -
  have "i \<in> set (membersOf (groups s))"
    using assms(2,3) by (auto dest!: map_get_SomeD intro: member_in_membersOf)
  then have "i \<in> p_id ` set (pieces s)" using partition_invD(4) [OF assms(1)] by simp
  then obtain p where "pieceById s i = Some p"
    by (cases "pieceById s i") (auto simp: pieceById_def find_None_iff)
  then show ?thesis using pieceById_SomeD by blast
qed

lemma partition_inv_indexed:
  "partition_inv s \<Longrightarrow> q \<in> set (pieces s) \<Longrightarrow> indexed s q"
  using partition_inv_index [of s q] by (auto simp: indexed_def)


lemma membersOf_write_group_same:
  "\<forall>kg\<in>set gs. fst kg = g_id g' \<longrightarrow> g_members (snd kg) = g_members g' \<Longrightarrow>
   membersOf (write_group g' gs) = membersOf gs"
  by (induction gs) (auto simp: membersOf_def write_group_def)

lemma snapTo_facts:
  assumes inv: "partition_inv s" and reg: "map_get (g_id movedG) (groups s) = Some movedG"
  shows "partition_inv (snapTo s movedG idl)"
    and "map_get (g_id movedG) (groups (snapTo s movedG idl)) = Some (movedG\<lparr>g_pos := idl\<rparr>)"
    and "k \<noteq> g_id movedG \<Longrightarrow> map_get k (groups (snapTo s movedG idl)) = map_get k (groups s)"
    and "pieceToGroup (snapTo s movedG idl) = pieceToGroup s"
    and "pieces (snapTo s movedG idl) = pieces s"
    and "drag (snapTo s movedG idl) = drag s"
    and "length (groups (snapTo s movedG idl)) = length (groups s)"
proof -
  note dk = partition_invD(1) [OF inv]
  let ?m = "movedG\<lparr>g_pos := idl\<rparr>"
  have same: "\<forall>kg\<in>set (groups s). fst kg = g_id ?m \<longrightarrow> g_members (snd kg) = g_members ?m"
  proof
    fix kg assume kg: "kg \<in> set (groups s)"
    show "fst kg = g_id ?m \<longrightarrow> g_members (snd kg) = g_members ?m"
    proof
      assume "fst kg = g_id ?m"
      then have "(g_id movedG, snd kg) \<in> set (groups s)"
        using kg by (cases kg) simp
      then have "map_get (g_id movedG) (groups s) = Some (snd kg)"
        using dk by (intro map_get_SomeI)
      with reg show "g_members (snd kg) = g_members ?m" by simp
    qed
  qed
  have mem: "membersOf (groups (snapTo s movedG idl)) = membersOf (groups s)"
    using membersOf_write_group_same [OF same] by (simp add: snapTo_def)
  show g1: "map_get (g_id movedG) (groups (snapTo s movedG idl)) = Some ?m"
    using map_get_write_group_same [of ?m "groups s"] map_get_in_keys [OF reg]
    by (simp add: snapTo_def)
  show g2: "k \<noteq> g_id movedG \<Longrightarrow> map_get k (groups (snapTo s movedG idl)) = map_get k (groups s)" for k
    by (simp add: snapTo_def map_get_write_group_other)
  show "pieceToGroup (snapTo s movedG idl) = pieceToGroup s"
    "pieces (snapTo s movedG idl) = pieces s" "drag (snapTo s movedG idl) = drag s"
    "length (groups (snapTo s movedG idl)) = length (groups s)"
    by (simp_all add: snapTo_def)
  have c2: "list_all (\<lambda>kg. g_id (snd kg) = fst kg) (groups (snapTo s movedG idl))"
    using partition_invD(2) [OF inv]
    by (auto simp: snapTo_def list_all_iff write_group_def split: if_splits)
  have c5: "list_all (\<lambda>p. case pieceToGroup (snapTo s movedG idl) (p_id p) of
                        None \<Rightarrow> False
                      | Some k \<Rightarrow> (case map_get k (groups (snapTo s movedG idl)) of
                                    None \<Rightarrow> False
                                  | Some g \<Rightarrow> p_id p \<in> set (g_members g))) (pieces (snapTo s movedG idl))"
    unfolding list_all_iff
  proof
    fix p assume "p \<in> set (pieces (snapTo s movedG idl))"
    then have p: "p \<in> set (pieces s)" by (simp add: snapTo_def)
    from partition_inv_index [OF inv p] obtain k g where
      kg: "pieceToGroup s (p_id p) = Some k" "map_get k (groups s) = Some g"
          "p_id p \<in> set (g_members g)" by blast
    show "case pieceToGroup (snapTo s movedG idl) (p_id p) of
                        None \<Rightarrow> False
                      | Some k \<Rightarrow> (case map_get k (groups (snapTo s movedG idl)) of
                                    None \<Rightarrow> False
                                  | Some g \<Rightarrow> p_id p \<in> set (g_members g))"
    proof (cases "k = g_id movedG")
      case True
      with kg reg have "g = movedG" by simp
      with kg True g1 show ?thesis by (simp add: snapTo_def)
    next
      case False
      with kg g2 [OF False] show ?thesis by (simp add: snapTo_def)
    qed
  qed
  show "partition_inv (snapTo s movedG idl)"
    using dk c2 c5 partition_invD(3,4) [OF inv]
    by (simp add: partition_inv_def allMembers_membersOf mem) (simp add: snapTo_def)
qed

lemma release_lock:
  assumes inv: "partition_inv s" and lock: "lockOnSnap cfg"
    and reg: "map_get (g_id movedG) (groups s) = Some movedG"
  shows "trySnapAndMerge cfg s movedG
           = (case firstSnap cfg s movedG of
                None \<Rightarrow> Inr s
              | Some (p, q, gQ) \<Rightarrow>
                  Inr (fst (mergeGroups (snapTo s movedG (ideal p q gQ))
                                        (movedG\<lparr>g_pos := ideal p q gQ\<rparr>) gQ)))"
proof -
  have ok: "\<forall>i\<in>set (g_members movedG). \<exists>p. pieceById s i = Some p
               \<and> (\<forall>q\<in>set (neighbours cfg s p). indexed s q)"
  proof
    fix i assume "i \<in> set (g_members movedG)"
    from partition_inv_pieceById [OF inv reg this] obtain p where "pieceById s i = Some p" by blast
    moreover have "\<forall>q\<in>set (neighbours cfg s p). indexed s q"
      using neighbours_subset partition_inv_indexed [OF inv] by blast
    ultimately show "\<exists>p. pieceById s i = Some p \<and> (\<forall>q\<in>set (neighbours cfg s p). indexed s q)"
      by blast
  qed
  from snapLoop_lock [OF lock ok, of 0] show ?thesis
    by (simp add: trySnapAndMerge_def firstSnap_def)
qed

lemma firstSnapFrom_SomeD:
  "firstSnapFrom cfg s movedG ids = Some (p, q, gQ) \<Longrightarrow>
   p_id p \<in> set ids \<and> pieceById s (p_id p) = Some p
   \<and> firstNeighbour cfg s movedG p (neighbours cfg s p) = Some (q, gQ)"
proof (induction ids)
  case Nil
  then show ?case by simp
next
  case (Cons i ids)
  show ?case
  proof (cases "pieceById s i")
    case None
    with Cons.prems show ?thesis by simp
  next
    case (Some p')
    show ?thesis
    proof (cases "firstNeighbour cfg s movedG p' (neighbours cfg s p')")
      case None
      with Some Cons show ?thesis by simp
    next
      case fn: (Some a)
      with Some Cons.prems have "a = (q, gQ)" "p' = p" by (auto split: prod.splits)
      with Some fn pieceById_SomeD [OF Some] show ?thesis by simp
    qed
  qed
qed


section \<open>Snap correctness\<close>

text \<open>
  The ideal offset of a release is the neighbour's world position minus the member's
  target: at that offset the member stands on the neighbour's position.
\<close>

lemma ideal_world:
  "(fst (p_target p) + fst (ideal p q gQ), snd (p_target p) + snd (ideal p q gQ))
     = (fst (p_target q) + fst (g_pos gQ), snd (p_target q) + snd (g_pos gQ))"
  by (simp add: ideal_def)





definition sSnap :: state where
  "sSnap = \<lparr>pieces = createPieces cfg23,
            groups = [(''a'', \<lparr>g_id = ''a'', g_members = [0], g_pos = (0, 0)\<rparr>),
                      (''c'', \<lparr>g_id = ''c'', g_members = [2], g_pos = (0, 0)\<rparr>),
                      (''d'', \<lparr>g_id = ''d'', g_members = [3, 4, 5], g_pos = (0, 300)\<rparr>),
                      (''b'', \<lparr>g_id = ''b'', g_members = [1], g_pos = (95, 3)\<rparr>)],
            pieceToGroup = [0 \<mapsto> ''a'', 1 \<mapsto> ''b'', 2 \<mapsto> ''c'', 3 \<mapsto> ''d'', 4 \<mapsto> ''d'', 5 \<mapsto> ''d''],
            drag = Some \<lparr>groupId = ''b'', offsetX = 10, offsetY = 10, d_target = (95, 3)\<rparr>\<rparr>"

definition sEarlier :: state where
  "sEarlier = \<lparr>pieces = createPieces cfg23,
            groups = [(''a'', \<lparr>g_id = ''a'', g_members = [0], g_pos = (200, 0)\<rparr>),
                      (''c'', \<lparr>g_id = ''c'', g_members = [2], g_pos = (0, 0)\<rparr>),
                      (''d'', \<lparr>g_id = ''d'', g_members = [3, 4, 5], g_pos = (0, 300)\<rparr>),
                      (''b'', \<lparr>g_id = ''b'', g_members = [1], g_pos = (100, 0)\<rparr>)],
            pieceToGroup = [0 \<mapsto> ''a'', 1 \<mapsto> ''b'', 2 \<mapsto> ''c'', 3 \<mapsto> ''d'', 4 \<mapsto> ''d'', 5 \<mapsto> ''d''],
            drag = Some \<lparr>groupId = ''b'', offsetX = 10, offsetY = 10, d_target = (100, 0)\<rparr>\<rparr>"

lemma withinSnap_iff:
  "withinSnap cfg a b \<longleftrightarrow>
     0 \<le> snapDistance cfg
     \<and> real_of_int ((fst a - fst b) * (fst a - fst b) + (snd a - snd b) * (snd a - snd b))
         \<le> snapDistance cfg * snapDistance cfg"
  by (simp add: withinSnap_def hypot_le_iff)

lemma sSnap_simps [simp]:
  "pieces sSnap = createPieces cfg23"
  "groups sSnap = [(''a'', \<lparr>g_id = ''a'', g_members = [0], g_pos = (0, 0)\<rparr>),
                      (''c'', \<lparr>g_id = ''c'', g_members = [2], g_pos = (0, 0)\<rparr>),
                      (''d'', \<lparr>g_id = ''d'', g_members = [3, 4, 5], g_pos = (0, 300)\<rparr>),
                      (''b'', \<lparr>g_id = ''b'', g_members = [1], g_pos = (95, 3)\<rparr>)]"
  "pieceToGroup sSnap = [0 \<mapsto> ''a'', 1 \<mapsto> ''b'', 2 \<mapsto> ''c'', 3 \<mapsto> ''d'', 4 \<mapsto> ''d'', 5 \<mapsto> ''d'']"
  "drag sSnap = Some \<lparr>groupId = ''b'', offsetX = 10, offsetY = 10, d_target = (95, 3)\<rparr>"
  by (simp_all add: sSnap_def)

lemma sEarlier_simps [simp]:
  "pieces sEarlier = createPieces cfg23"
  "groups sEarlier = [(''a'', \<lparr>g_id = ''a'', g_members = [0], g_pos = (200, 0)\<rparr>),
                      (''c'', \<lparr>g_id = ''c'', g_members = [2], g_pos = (0, 0)\<rparr>),
                      (''d'', \<lparr>g_id = ''d'', g_members = [3, 4, 5], g_pos = (0, 300)\<rparr>),
                      (''b'', \<lparr>g_id = ''b'', g_members = [1], g_pos = (100, 0)\<rparr>)]"
  "pieceToGroup sEarlier = [0 \<mapsto> ''a'', 1 \<mapsto> ''b'', 2 \<mapsto> ''c'', 3 \<mapsto> ''d'', 4 \<mapsto> ''d'', 5 \<mapsto> ''d'']"
  "drag sEarlier = Some \<lparr>groupId = ''b'', offsetX = 10, offsetY = 10, d_target = (100, 0)\<rparr>"
  by (simp_all add: sEarlier_def)

lemma js_round_numeral [simp]:
  "js_round (numeral n) = numeral n" "js_round (- numeral n) = - numeral n"
  using js_round_of_int [of "numeral n"] js_round_of_int [of "- numeral n"] by simp_all


lemmas eval_release =
  pieceById_def createPieces_cfg23 mkPiece_def neighbours_def getPiece_def List.map_filter_def
  map_get_def withinSnap_iff ideal_def mergeGroups_def write_group_def map_delete_def
  set_add_def Let_def






section \<open>Where the partition invariant holds\<close>

lemma partition_inv_drag [simp]: "partition_inv (s\<lparr>drag := x\<rparr>) = partition_inv s"
  by (simp add: partition_inv_def allMembers_def cong: option.case_cong)

lemma partition_inv_mergeGroups:
  assumes "partition_inv s"
    and "map_get (g_id gA) (groups s) = Some gA"
    and "map_get (g_id gB) (groups s) = Some gB"
    and "g_id gA \<noteq> g_id gB"
  shows "partition_inv (fst (mergeGroups s gA gB))"
proof (cases "length (g_members gA) \<le> length (g_members gB)")
  case True
  with absorb_inv [OF assms(1,3,2)] assms(4) show ?thesis by (simp add: mergeGroups_absorb)
next
  case False
  with absorb_inv [OF assms(1,2,3,4)] show ?thesis by (simp add: mergeGroups_absorb)
qed

lemma partition_inv_release_lock:
  assumes inv: "partition_inv s" and lock: "lockOnSnap cfg"
    and dr: "drag s = Some d" and mg: "map_get (groupId d) (groups s) = Some movedG"
  shows "\<exists>s'. handleUp cfg s = Inr s' \<and> partition_inv s'
           \<and> (length (groups s') = length (groups s) \<or> length (groups s') + 1 = length (groups s))"
proof -
  have idm: "g_id movedG = groupId d"
    using partition_invD(2) [OF inv map_get_SomeD [OF mg]] .
  have reg: "map_get (g_id movedG) (groups s) = Some movedG" using mg idm by simp
  note rel = release_lock [OF inv lock reg]
  show ?thesis
  proof (cases "firstSnap cfg s movedG")
    case None
    with rel dr mg inv show ?thesis by (simp add: handleUp_def)
  next
    case (Some a)
    obtain p q gQ where a: "a = (p, q, gQ)" by (cases a)
    from firstSnapFrom_SomeD [OF Some [unfolded a firstSnap_def]]
    have fn: "firstNeighbour cfg s movedG p (neighbours cfg s p) = Some (q, gQ)" by simp
    from firstNeighbour_SomeD [OF fn] obtain kQ where
      kQ: "kQ \<noteq> g_id movedG" "map_get kQ (groups s) = Some gQ" by blast
    have idq: "g_id gQ = kQ" using partition_invD(2) [OF inv map_get_SomeD [OF kQ(2)]] .
    let ?m = "movedG\<lparr>g_pos := ideal p q gQ\<rparr>"
    let ?s1 = "snapTo s movedG (ideal p q gQ)"
    note st = snapTo_facts [OF inv reg, where idl = "ideal p q gQ"]
    have r1: "map_get (g_id ?m) (groups ?s1) = Some ?m" using st(2) by simp
    have r2: "map_get (g_id gQ) (groups ?s1) = Some gQ" using st(3) [of kQ] kQ idq by simp
    have ne: "g_id ?m \<noteq> g_id gQ" using kQ(1) idq by simp
    have inv': "partition_inv (fst (mergeGroups ?s1 ?m gQ))"
      using partition_inv_mergeGroups [OF st(1) r1 r2 ne] .
    have len: "length (groups (fst (mergeGroups ?s1 ?m gQ))) + 1 = length (groups s)"
    proof (cases "length (g_members ?m) \<le> length (g_members gQ)")
      case True
      with absorb_groups(4) [OF st(1) r2 r1] ne st(7) show ?thesis
        by (simp add: mergeGroups_absorb)
    next
      case False
      with absorb_groups(4) [OF st(1) r1 r2 ne] st(7) show ?thesis
        by (simp add: mergeGroups_absorb)
    qed
    have "handleUp cfg s = Inr ((fst (mergeGroups ?s1 ?m gQ))\<lparr>drag := None\<rparr>)"
      using rel Some a dr mg by (simp add: handleUp_def)
    with inv' len show ?thesis by simp
  qed
qed

section \<open>Releases that break the partition\<close>

definition cfg23open :: config where
  \<comment> \<open>the 2 by 3 board with \<open>lockOnSnap: false\<close>\<close>
  "cfg23open = cfg23\<lparr>lockOnSnap := False\<rparr>"

definition sStale :: state where
  "sStale = \<lparr>pieces = createPieces cfg23open,
             groups = [(''g01'', \<lparr>g_id = ''g01'', g_members = [0, 1], g_pos = (0, 0)\<rparr>),
                       (''g34'', \<lparr>g_id = ''g34'', g_members = [3, 4], g_pos = (0, 0)\<rparr>),
                       (''g25'', \<lparr>g_id = ''g25'', g_members = [2, 5], g_pos = (- 100, 0)\<rparr>)],
             pieceToGroup = [0 \<mapsto> ''g01'', 1 \<mapsto> ''g01'', 3 \<mapsto> ''g34'', 4 \<mapsto> ''g34'',
                             2 \<mapsto> ''g25'', 5 \<mapsto> ''g25''],
             drag = Some \<lparr>groupId = ''g25'', offsetX = 10, offsetY = 10, d_target = (- 100, 0)\<rparr>\<rparr>"

lemma cfg23open_simps [simp]:
  "rows cfg23open = 2" "cols cfg23open = 3" "cell_w cfg23open = 100" "cell_h cfg23open = 100"
  "bounds_x cfg23open = 24" "bounds_y cfg23open = 24" "snapDistance cfg23open = 14"
  "lockOnSnap cfg23open = False"
  by (simp_all add: cfg23open_def)

lemma createPieces_cfg23open: "createPieces cfg23open = createPieces cfg23"
  by (simp add: createPieces_eq mkPiece_def)

lemma sStale_simps [simp]:
  "pieces sStale = createPieces cfg23"
  "groups sStale = [(''g01'', \<lparr>g_id = ''g01'', g_members = [0, 1], g_pos = (0, 0)\<rparr>),
                       (''g34'', \<lparr>g_id = ''g34'', g_members = [3, 4], g_pos = (0, 0)\<rparr>),
                       (''g25'', \<lparr>g_id = ''g25'', g_members = [2, 5], g_pos = (- 100, 0)\<rparr>)]"
  "pieceToGroup sStale = [0 \<mapsto> ''g01'', 1 \<mapsto> ''g01'', 3 \<mapsto> ''g34'', 4 \<mapsto> ''g34'',
                             2 \<mapsto> ''g25'', 5 \<mapsto> ''g25'']"
  "drag sStale = Some \<lparr>groupId = ''g25'', offsetX = 10, offsetY = 10, d_target = (- 100, 0)\<rparr>"
  by (simp_all add: sStale_def createPieces_cfg23open)

lemma partition_inv_sStale: "partition_inv sStale"
  by (auto simp: partition_inv_def allMembers_def createPieces_cfg23 mkPiece_def map_get_def)

lemma handleUp_sStale:
  "(case handleUp cfg23open sStale of
      Inl e \<Rightarrow> None
    | Inr s' \<Rightarrow> Some (map (\<lambda>kg. (fst kg, g_members (snd kg), g_pos (snd kg))) (groups s'),
                     map (pieceToGroup s') [0, 1, 2, 3, 4, 5]))
   = Some ([(''g01'', [0, 1, 2, 5], (0, 0)), (''g34'', [3, 4, 2, 5], (0, 0))],
           [Some ''g01'', Some ''g01'', Some ''g34'', Some ''g34'', Some ''g34'', Some ''g34''])"
  by (simp add: handleUp_def trySnapAndMerge_def snapLoop.simps eval_release)

text \<open>
  Claim C4, evaluated on the 2 by 3 board with \<open>lockOnSnap: false\<close>. Before the release the
  clusters \<open>{0, 1}\<close>, \<open>{3, 4}\<close> and the dragged \<open>{2, 5}\<close> partition the six pieces. The release
  first folds \<open>{2, 5}\<close> into \<open>{0, 1}\<close> through piece 2 and goes on to piece 5 with the object
  of the absorbed cluster, which it folds into \<open>{3, 4}\<close> as well: pieces 2 and 5 end up in
  two clusters and the partition invariant is lost.
\<close>

theorem release_without_lock_breaks_partition:
  "partition_inv sStale
   \<and> (case handleUp cfg23open sStale of
         Inl e \<Rightarrow> None
       | Inr s' \<Rightarrow> Some (map (\<lambda>kg. (fst kg, g_members (snd kg), g_pos (snd kg))) (groups s'),
                        map (pieceToGroup s') [0, 1, 2, 3, 4, 5],
                        partition_inv s'))
       = Some ([(''g01'', [0, 1, 2, 5], (0, 0)), (''g34'', [3, 4, 2, 5], (0, 0))],
               [Some ''g01'', Some ''g01'', Some ''g34'', Some ''g34'', Some ''g34'', Some ''g34''],
               False)"
proof -
  obtain r where r: "handleUp cfg23open sStale = r" by simp
  show ?thesis
  proof (cases r)
    case (Inl e)
    with handleUp_sStale r show ?thesis by simp
  next
    case (Inr s')
    with handleUp_sStale r have g: "map (\<lambda>kg. (fst kg, g_members (snd kg), g_pos (snd kg))) (groups s')
        = [(''g01'', [0, 1, 2, 5], (0, 0)), (''g34'', [3, 4, 2, 5], (0, 0))]"
      and i: "map (pieceToGroup s') [0, 1, 2, 3, 4, 5]
        = [Some ''g01'', Some ''g01'', Some ''g34'', Some ''g34'', Some ''g34'', Some ''g34'']"
      by simp_all
    have "map (\<lambda>kg. g_members (snd kg)) (groups s') = [[0, 1, 2, 5], [3, 4, 2, 5]]"
      using arg_cong [OF g, of "map (\<lambda>t. fst (snd t))"] by (simp add: comp_def)
    then have "\<not> distinct (allMembers s')" by (simp add: allMembers_def)
    then have "\<not> partition_inv s'" by (simp add: partition_inv_def)
    with g i Inr r partition_inv_sStale show ?thesis by simp
  qed
qed


section \<open>The 1 by 2 scenario\<close>

definition cfg12 :: config where
  "cfg12 = \<lparr>rows = 1, cols = 2, cell_w = 100, cell_h = 100, bounds_x = 24, bounds_y = 24,
            maxStepPerFrame = 10, dragLerp = 0.2, snapDistance = 14, lockOnSnap = True\<rparr>"

definition uuid12 :: "nat \<Rightarrow> gid" where
  "uuid12 i = (if i = 0 then ''g0'' else ''g1'')"

definition initial :: "config \<Rightarrow> (nat \<Rightarrow> gid) \<Rightarrow> state" where
  \<comment> \<open>the state \<open>init\<close> leaves: the pieces of the board, one singleton cluster each\<close>
  "initial cfg uuid =
     createGroups uuid \<lparr>pieces = createPieces cfg, groups = [], pieceToGroup = Map.empty, drag = None\<rparr>"


lemma js_round_minus_of_int [simp]: "js_round (- real_of_int k) = - k"
  using js_round_of_int [of "- k"] by simp





lemma cfg12_simps [simp]:
  "rows cfg12 = 1" "cols cfg12 = 2" "cell_w cfg12 = 100" "cell_h cfg12 = 100"
  "bounds_x cfg12 = 24" "bounds_y cfg12 = 24" "snapDistance cfg12 = 14" "lockOnSnap cfg12 = True"
  by (simp_all add: cfg12_def)

lemma uuid12_simps [simp]: "uuid12 0 = ''g0''" "uuid12 1 = ''g1''" "uuid12 (Suc 0) = ''g1''"
  by (simp_all add: uuid12_def)




section \<open>The broken partition, from a fresh board\<close>

text \<open>
  The failure is reached from the start of a game: on the fresh 2 by 3 board with \<open>lockOnSnap: false\<close>,
  dropping piece 1 beside piece 0, piece 4 beside piece 3, piece 5 under piece 2 and then
  the cluster \<open>{2, 5}\<close> onto the cell of piece 1 runs through the same release and ends
  with pieces 2 and 5 in two clusters.
\<close>

definition uuid6 :: "nat \<Rightarrow> gid" where
  "uuid6 i = [''u0'', ''u1'', ''u2'', ''u3'', ''u4'', ''u5''] ! i"

definition dragTo :: "gid \<Rightarrow> point \<Rightarrow> state \<Rightarrow> error + state" where
  \<comment> \<open>a drag of the cluster \<open>k\<close> up to the release: \<open>_handleDown\<close> re-inserts the cluster as
      the last entry of \<open>groups\<close> and opens the session, the frames move it to \<open>pos\<close>\<close>
  "dragTo k pos s =
     (case map_get k (groups s) of
        None \<Rightarrow> Inl TypeError
      | Some g \<Rightarrow>
          Inr (s\<lparr>groups := map_set k (g\<lparr>g_pos := pos\<rparr>) (map_delete k (groups s)),
                 drag := Some \<lparr>groupId = k, offsetX = 0, offsetY = 0, d_target = pos\<rparr>\<rparr>))"

definition andThen :: "error + state \<Rightarrow> (state \<Rightarrow> error + state) \<Rightarrow> error + state" where
  "andThen r f = (case r of Inl e \<Rightarrow> Inl e | Inr s \<Rightarrow> f s)"

definition staleRun :: "error + state" where
  \<comment> \<open>four drags on the fresh 2 by 3 board with \<open>lockOnSnap: false\<close>\<close>
  "staleRun =
     andThen (andThen (andThen (andThen (andThen (andThen (andThen (andThen
       (Inr (initial cfg23open uuid6))
       (dragTo ''u1'' (- 100, 0))) (handleUp cfg23open))
       (dragTo ''u4'' (- 100, 0))) (handleUp cfg23open))
       (dragTo ''u5'' (0, - 100))) (handleUp cfg23open))
       (dragTo ''u2'' (- 100, 0))) (handleUp cfg23open)"

lemma initial_cfg23open:
  "initial cfg23open uuid6 =
     \<lparr>pieces = createPieces cfg23,
      groups = [(''u0'', \<lparr>g_id = ''u0'', g_members = [0], g_pos = (0, 0)\<rparr>),
                (''u1'', \<lparr>g_id = ''u1'', g_members = [1], g_pos = (0, 0)\<rparr>),
                (''u2'', \<lparr>g_id = ''u2'', g_members = [2], g_pos = (0, 0)\<rparr>),
                (''u3'', \<lparr>g_id = ''u3'', g_members = [3], g_pos = (0, 0)\<rparr>),
                (''u4'', \<lparr>g_id = ''u4'', g_members = [4], g_pos = (0, 0)\<rparr>),
                (''u5'', \<lparr>g_id = ''u5'', g_members = [5], g_pos = (0, 0)\<rparr>)],
      pieceToGroup = [0 \<mapsto> ''u0'', 1 \<mapsto> ''u1'', 2 \<mapsto> ''u2'', 3 \<mapsto> ''u3'', 4 \<mapsto> ''u4'', 5 \<mapsto> ''u5''],
      drag = None\<rparr>"
  by (simp add: initial_def createGroups_def createPieces_cfg23open createPieces_cfg23 Let_def
      map_set_def enumerate_simps mkPiece_def uuid6_def)

lemma staleRun_result:
  "(case staleRun of
      Inl e \<Rightarrow> None
    | Inr s' \<Rightarrow> Some (map (\<lambda>kg. (fst kg, g_members (snd kg), g_pos (snd kg))) (groups s'),
                     map (pieceToGroup s') [0, 1, 2, 3, 4, 5]))
   = Some ([(''u0'', [0, 1, 2, 5], (0, 0)), (''u3'', [3, 4, 2, 5], (0, 0))],
           [Some ''u0'', Some ''u0'', Some ''u3'', Some ''u3'', Some ''u3'', Some ''u3''])"
  by (simp add: staleRun_def andThen_def dragTo_def initial_cfg23open map_set_def
      handleUp_def trySnapAndMerge_def snapLoop.simps eval_release)

end
